theory Spec2Isabelle
  imports Main
begin

section \<open>The undo/redo text buffer of \<^verbatim>\<open>undoredo.cpp\<close>\<close>

text \<open>
  The program reads command lines, keeps one text buffer (\<^verbatim>\<open>current\<close>) and two
  histories of edits: a weight-bounded undo stack that drops its oldest entries when the
  cumulative weight exceeds the cap, and an unbounded redo stack.

  Modelling decisions.
  \<^item> A chain of \<^verbatim>\<open>Node\<close>s is the list of the Actions it holds, newest first: the head
    of the list is the node \<^verbatim>\<open>top_\<close> (or \<^verbatim>\<open>head_\<close>) points to, the last element is
    the node \<^verbatim>\<open>bottom_\<close> points to, and a null \<^verbatim>\<open>top_\<close> is the empty list.
  \<^item> \<^verbatim>\<open>int\<close> values are integers of HOL, and the one computation that leaves the
    32-bit range in states the program reaches, the sum \<^verbatim>\<open>totalWeight_ += a.weight\<close> of
    \<^verbatim>\<open>push\<close>, is reduced to that range by \<open>wrap32\<close>: two's complement wrap-around,
    which is what the compiled sum does (the C++ standard leaves signed overflow
    undefined). The conversions of string lengths to \<^verbatim>\<open>int\<close> are exact for texts
    shorter than \<open>2^31\<close> characters. For such texts the weights are between 0 and
    \<open>INT_MAX\<close>, and the cap, the cached total and the capacity stay in the 32-bit range
    in every state the program reaches, so the subtractions of \<^verbatim>\<open>pop\<close> and
    \<^verbatim>\<open>trim\<close> stay in range there.
  \<^item> What ends the program abnormally is a value of type \<open>fault\<close>: a null pointer
    dereference, or one of the two exceptions \<^verbatim>\<open>std::stoi\<close> throws (nothing in the
    program catches them).
  \<^item> Standard output is the string of all characters written so far.
\<close>

subsection \<open>Tokenizer\<close>

text \<open>
  The loop of \<^verbatim>\<open>get_args\<close> over the characters of the line; its state is the
  vector of arguments, the flag \<^verbatim>\<open>in_quotes\<close> and \<^verbatim>\<open>current_arg\<close>.
\<close>

fun get_args_loop :: "string \<Rightarrow> string list \<Rightarrow> bool \<Rightarrow> string \<Rightarrow> string list" where
  "get_args_loop [] args in_quotes current_arg =
     (if current_arg \<noteq> [] then args @ [current_arg] else args)"
| "get_args_loop (c # cs) args in_quotes current_arg =
     (if c = CHR '' '' \<and> \<not> in_quotes then
        (if current_arg \<noteq> [] then get_args_loop cs (args @ [current_arg]) in_quotes []
         else get_args_loop cs args in_quotes current_arg)
      else if c = CHR 0x22 then get_args_loop cs args (\<not> in_quotes) current_arg
      else get_args_loop cs args in_quotes (current_arg @ [c]))"

definition get_args :: "string \<Rightarrow> string list" where
  "get_args command = get_args_loop command [] False []"

subsection \<open>Faults and \<^verbatim>\<open>std::stoi\<close>\<close>

datatype fault = NullDereference | InvalidArgument | OutOfRange

text \<open>
  \<^verbatim>\<open>std::stoi(str)\<close> with the default base 10, as the C++ standard library defines it
  through \<^verbatim>\<open>strtol\<close>: leading white space is skipped, an optional sign is read, then the
  longest run of decimal digits; what follows is ignored. No digit at all throws
  \<^verbatim>\<open>std::invalid_argument\<close>, a value outside the range of \<^verbatim>\<open>int\<close> throws
  \<^verbatim>\<open>std::out_of_range\<close>.
\<close>

definition isspace :: "char \<Rightarrow> bool" where
  "isspace c = (c = CHR '' '' \<or> c = CHR 0x09 \<or> c = CHR 0x0A \<or> c = CHR 0x0B
                \<or> c = CHR 0x0C \<or> c = CHR 0x0D)"

definition isdigit :: "char \<Rightarrow> bool" where
  "isdigit c = (48 \<le> (of_char c :: nat) \<and> (of_char c :: nat) \<le> 57)"

fun digits_value :: "string \<Rightarrow> int \<Rightarrow> int" where
  "digits_value [] acc = acc"
| "digits_value (c # cs) acc = digits_value cs (10 * acc + (int (of_char c) - 48))"

definition INT_MAX :: int where
  "INT_MAX = 2147483647"

definition INT_MIN :: int where
  "INT_MIN = - 2147483648"

definition stoi :: "string \<Rightarrow> fault + int" where
  "stoi str =
     (let s1 = dropWhile isspace str;
          neg = (s1 \<noteq> [] \<and> hd s1 = CHR ''-'');
          s2 = (if s1 \<noteq> [] \<and> (hd s1 = CHR ''-'' \<or> hd s1 = CHR ''+'') then tl s1 else s1);
          ds = takeWhile isdigit s2
      in if ds = [] then Inl InvalidArgument
         else let v = (if neg then - digits_value ds 0 else digits_value ds 0)
              in if v < INT_MIN \<or> INT_MAX < v then Inl OutOfRange else Inr v)"

subsection \<open>Actions and the weighted undo stack\<close>

record Action =
  prev_str :: string
  next_str :: string
  weight :: int

text \<open>
  \<^verbatim>\<open>WeightedUndoStack\<close>: \<open>nodes\<close> is the chain from \<^verbatim>\<open>top_\<close> (head) down to
  \<^verbatim>\<open>bottom_\<close> (last); \<open>totalWeight\<close> and \<open>maxWeight\<close> are the members
  \<^verbatim>\<open>totalWeight_\<close> and \<^verbatim>\<open>maxWeight_\<close>.
\<close>

record WeightedUndoStack =
  nodes :: "Action list"
  totalWeight :: int
  maxWeight :: int

definition undo_init :: WeightedUndoStack where
  "undo_init = \<lparr>nodes = [], totalWeight = 0, maxWeight = 0\<rparr>"

text \<open>The \<^verbatim>\<open>while\<close> loop of \<^verbatim>\<open>trim\<close>: it deletes the node at \<^verbatim>\<open>bottom_\<close>.\<close>

function trim_loop :: "WeightedUndoStack \<Rightarrow> WeightedUndoStack" where
  "trim_loop u =
     (if nodes u \<noteq> [] \<and> totalWeight u > maxWeight u
      then trim_loop (u\<lparr>totalWeight := totalWeight u - weight (last (nodes u)),
                         nodes := butlast (nodes u)\<rparr>)
      else u)"
  by pat_completeness auto
termination
  by (relation "measure (\<lambda>u. length (nodes u))") auto

declare trim_loop.simps [simp del]

definition trim :: "WeightedUndoStack \<Rightarrow> WeightedUndoStack" where
  "trim u =
     (let u' = trim_loop u
      in if totalWeight u' < 0 then u'\<lparr>totalWeight := 0\<rparr> else u')"

definition setMaxWeight :: "int \<Rightarrow> WeightedUndoStack \<Rightarrow> WeightedUndoStack" where
  "setMaxWeight mw u = trim (u\<lparr>maxWeight := (if mw < 0 then 0 else mw)\<rparr>)"

definition undo_clear :: "WeightedUndoStack \<Rightarrow> WeightedUndoStack" where
  "undo_clear u = u\<lparr>nodes := [], totalWeight := 0\<rparr>"

definition undo_empty :: "WeightedUndoStack \<Rightarrow> bool" where
  "undo_empty u = (nodes u = [])"

text \<open>
  The value a 32-bit \<^verbatim>\<open>int\<close> holds after a sum whose exact result is \<open>x\<close>: \<open>x\<close>
  itself when it is in the range, \<open>x\<close> reduced modulo \<open>2^32\<close> into the range otherwise.
\<close>

definition wrap32 :: "int \<Rightarrow> int" where
  "wrap32 x = (x + 2147483648) mod 4294967296 - 2147483648"

definition undo_push :: "Action \<Rightarrow> WeightedUndoStack \<Rightarrow> WeightedUndoStack" where
  "undo_push a u =
     trim (u\<lparr>nodes := a # nodes u, totalWeight := wrap32 (totalWeight u + weight a)\<rparr>)"

text \<open>
  \<^verbatim>\<open>pop\<close> reads \<^verbatim>\<open>n->act\<close> through \<^verbatim>\<open>top_\<close> with no check: on an empty stack that
  is a null pointer dereference.
\<close>

definition undo_pop :: "WeightedUndoStack \<Rightarrow> fault + (Action \<times> WeightedUndoStack)" where
  "undo_pop u =
     (case nodes u of
        [] \<Rightarrow> Inl NullDereference
      | n # ns \<Rightarrow>
          (let t = totalWeight u - weight n
           in Inr (n, u\<lparr>nodes := ns, totalWeight := (if t < 0 then 0 else t)\<rparr>)))"

subsection \<open>The redo stack\<close>

type_synonym RedoStack = "Action list"

definition redo_clear :: "RedoStack \<Rightarrow> RedoStack" where
  "redo_clear r = []"

definition redo_empty :: "RedoStack \<Rightarrow> bool" where
  "redo_empty r = (r = [])"

definition redo_push :: "Action \<Rightarrow> RedoStack \<Rightarrow> RedoStack" where
  "redo_push a r = a # r"

definition redo_pop :: "RedoStack \<Rightarrow> fault + (Action \<times> RedoStack)" where
  "redo_pop r = (case r of [] \<Rightarrow> Inl NullDereference | n # ns \<Rightarrow> Inr (n, ns))"

subsection \<open>The command loop of \<^verbatim>\<open>main\<close>\<close>

text \<open>
  The variables of \<^verbatim>\<open>main\<close>; \<open>capacity\<close> is its local \<^verbatim>\<open>maxWeight\<close> and
  \<open>cout\<close> is everything written to standard output.
\<close>

record session =
  current :: string
  created :: bool
  capacity :: int
  undoStack :: WeightedUndoStack
  redoStack :: RedoStack
  cout :: string

definition main_init :: session where
  "main_init = \<lparr>current = [], created = False, capacity = 0, undoStack = undo_init,
                 redoStack = [], cout = []\<rparr>"

definition do_CREATE :: "int \<Rightarrow> string \<Rightarrow> session \<Rightarrow> session" where
  "do_CREATE mw text0 s =
     s\<lparr>capacity := mw, current := text0,
       undoStack := setMaxWeight mw (undo_clear (undoStack s)),
       redoStack := redo_clear (redoStack s), created := True\<rparr>"

definition do_APPEND :: "string \<Rightarrow> session \<Rightarrow> session" where
  "do_APPEND add s =
     (let a = \<lparr>prev_str = current s, next_str = current s @ add, weight = int (length add)\<rparr>
      in s\<lparr>current := current s @ add, undoStack := undo_push a (undoStack s),
           redoStack := redo_clear (redoStack s)\<rparr>)"

text \<open>The \<^verbatim>\<open>for\<close> loop of the REPLACE branch: the new text and the count.\<close>

fun replace_loop :: "char \<Rightarrow> char \<Rightarrow> string \<Rightarrow> string \<times> int" where
  "replace_loop findc repc [] = ([], 0)"
| "replace_loop findc repc (c # cs) =
     (let (cs', n) = replace_loop findc repc cs
      in if c = findc then (repc # cs', n + 1) else (c # cs', n))"

text \<open>The first character of a token, or the NUL character when the token is empty.\<close>

definition first_char :: "string \<Rightarrow> char" where
  "first_char arg = (if arg = [] then CHR 0x00 else hd arg)"

definition do_REPLACE :: "string \<Rightarrow> string \<Rightarrow> session \<Rightarrow> session" where
  "do_REPLACE arg1 arg2 s =
     (let findc = first_char arg1;
          repc = first_char arg2;
          (cur', n) = replace_loop findc repc (current s);
          a = \<lparr>prev_str = current s, next_str = cur', weight = n\<rparr>
      in s\<lparr>current := cur', undoStack := undo_push a (undoStack s),
           redoStack := redo_clear (redoStack s)\<rparr>)"

definition do_DELETE :: "int \<Rightarrow> session \<Rightarrow> session" where
  "do_DELETE i s =
     (let idx0 = (if i < 0 then 0 else i);
          idx = (if idx0 > int (length (current s)) then int (length (current s)) else idx0);
          removed = int (length (current s)) - idx;
          cur' = take (nat idx) (current s);
          a = \<lparr>prev_str = current s, next_str = cur', weight = removed\<rparr>
      in s\<lparr>current := cur', undoStack := undo_push a (undoStack s),
           redoStack := redo_clear (redoStack s)\<rparr>)"

definition nothing_to_undo :: string where
  "nothing_to_undo = ''Error: Nothing to undo.'' @ [CHR 0x0A]"

definition nothing_to_redo :: string where
  "nothing_to_redo = ''Error: Nothing to redo.'' @ [CHR 0x0A]"

definition do_UNDO :: "session \<Rightarrow> fault + session" where
  "do_UNDO s =
     (if undo_empty (undoStack s) then Inr (s\<lparr>cout := cout s @ nothing_to_undo\<rparr>)
      else case undo_pop (undoStack s) of
             Inl f \<Rightarrow> Inl f
           | Inr (a, u') \<Rightarrow>
               Inr (s\<lparr>undoStack := u', current := prev_str a,
                      redoStack := redo_push a (redoStack s)\<rparr>))"

definition do_REDO :: "session \<Rightarrow> fault + session" where
  "do_REDO s =
     (if redo_empty (redoStack s) then Inr (s\<lparr>cout := cout s @ nothing_to_redo\<rparr>)
      else case redo_pop (redoStack s) of
             Inl f \<Rightarrow> Inl f
           | Inr (a, r') \<Rightarrow>
               Inr (s\<lparr>redoStack := r', current := next_str a,
                      undoStack := undo_push a (undoStack s)\<rparr>))"

definition do_PRINT :: "session \<Rightarrow> session" where
  "do_PRINT s = s\<lparr>cout := cout s @ current s @ [CHR 0x0A]\<rparr>"

text \<open>One iteration of the \<^verbatim>\<open>while (std::getline(std::cin, line))\<close> loop.\<close>

definition step :: "session \<Rightarrow> string \<Rightarrow> fault + session" where
  "step s line =
     (if line = [] then Inr s
      else let args = get_args line in
        if args = [] then Inr s
        else let command = args ! 0 in
          if command = ''CREATE'' then
            (if length args < 3 then Inr s
             else case stoi (args ! 1) of
                    Inl f \<Rightarrow> Inl f
                  | Inr mw \<Rightarrow> Inr (do_CREATE mw (args ! 2) s))
          else if \<not> created s then Inr s
          else if command = ''APPEND'' then
            (if length args < 2 then Inr s else Inr (do_APPEND (args ! 1) s))
          else if command = ''REPLACE'' then
            (if length args < 3 then Inr s else Inr (do_REPLACE (args ! 1) (args ! 2) s))
          else if command = ''DELETE'' then
            (if length args < 2 then Inr s
             else case stoi (args ! 1) of
                    Inl f \<Rightarrow> Inl f
                  | Inr i \<Rightarrow> Inr (do_DELETE i s))
          else if command = ''UNDO'' then do_UNDO s
          else if command = ''REDO'' then do_REDO s
          else if command = ''PRINT'' then Inr (do_PRINT s)
          else Inr s)"

text \<open>The whole loop over the lines of the input; a fault ends the program.\<close>

fun run :: "session \<Rightarrow> string list \<Rightarrow> fault + session" where
  "run s [] = Inr s"
| "run s (line # rest) = (case step s line of Inl f \<Rightarrow> Inl f | Inr s' \<Rightarrow> run s' rest)"

subsection \<open>Notions used to state the properties\<close>

text \<open>
  None of the following is in the program: these are the words of the specification.
  \<open>wsum\<close> is the sum of the weights of a list of Actions; \<open>undo_inv\<close> says that
  the cached total of the undo stack is exact (weights are non-negative, the cached total
  is the sum of the members' weights and it is within the cap). Every operation of the
  stack keeps \<open>undo_inv\<close> except a \<^verbatim>\<open>push\<close> whose sum overflows; what holds after
  an overflow too is \<open>undo_bounds\<close> below.
\<close>

definition wsum :: "Action list \<Rightarrow> int" where
  "wsum ns = sum_list (map weight ns)"

definition undo_inv :: "WeightedUndoStack \<Rightarrow> bool" where
  "undo_inv u =
     (list_all (\<lambda>a. 0 \<le> weight a) (nodes u) \<and> totalWeight u = wsum (nodes u)
      \<and> totalWeight u \<le> maxWeight u)"

text \<open>
  The loop condition of the trim step, and the stack with its \<open>j\<close> oldest nodes
  removed and their weights subtracted. \<open>trimmed_by j u u'\<close>: the loop
  ``while the list is non-empty and over the cap, remove the oldest node'' started on
  \<open>u\<close> makes exactly \<open>j\<close> removals and (after the final clamp at 0) ends in \<open>u'\<close>.
\<close>

definition over_budget :: "WeightedUndoStack \<Rightarrow> bool" where
  "over_budget u = (nodes u \<noteq> [] \<and> maxWeight u < totalWeight u)"

definition evict_oldest :: "nat \<Rightarrow> WeightedUndoStack \<Rightarrow> WeightedUndoStack" where
  "evict_oldest j u =
     u\<lparr>nodes := take (length (nodes u) - j) (nodes u),
       totalWeight := totalWeight u - wsum (drop (length (nodes u) - j) (nodes u))\<rparr>"


text \<open>
  The two histories as chains of texts: going down the undo stack from the buffer, each
  Action ends where the one above starts; going down the redo stack, each Action starts
  where the one above ends.
\<close>

fun undo_chain :: "string \<Rightarrow> Action list \<Rightarrow> bool" where
  "undo_chain cur [] = True"
| "undo_chain cur (a # as) = (next_str a = cur \<and> undo_chain (prev_str a) as)"

fun redo_chain :: "string \<Rightarrow> Action list \<Rightarrow> bool" where
  "redo_chain cur [] = True"
| "redo_chain cur (a # as) = (prev_str a = cur \<and> redo_chain (next_str a) as)"

definition chain_inv :: "session \<Rightarrow> bool" where
  "chain_inv s =
     (undo_chain (current s) (nodes (undoStack s)) \<and> redo_chain (current s) (redoStack s)
      \<and> (created s \<or> (nodes (undoStack s) = [] \<and> redoStack s = [])))"

text \<open>
  What holds of the integers in every state the program reaches, also after a sum that
  wrapped around: the weights are not negative, the cached total is between 0 and the
  cap, the cap and the capacity are in the 32-bit range, and the cached total is at most
  the sum of the members' weights.
\<close>

definition undo_bounds :: "WeightedUndoStack \<Rightarrow> bool" where
  "undo_bounds u =
     (list_all (\<lambda>a. 0 \<le> weight a) (nodes u) \<and> 0 \<le> totalWeight u
      \<and> totalWeight u \<le> maxWeight u \<and> maxWeight u \<le> INT_MAX
      \<and> totalWeight u \<le> wsum (nodes u))"

definition session_bounds :: "session \<Rightarrow> bool" where
  "session_bounds s =
     (undo_bounds (undoStack s) \<and> list_all (\<lambda>a. 0 \<le> weight a) (redoStack s)
      \<and> INT_MIN \<le> capacity s \<and> capacity s \<le> INT_MAX)"

text \<open>
  Lines by their command word, and the lines that the loop executes as an edit of the
  buffer once a session exists: APPEND with a text, REPLACE with two tokens, DELETE with
  an index that \<^verbatim>\<open>std::stoi\<close> accepts.
\<close>

definition command_is :: "string \<Rightarrow> string \<Rightarrow> bool" where
  "command_is name line = (get_args line \<noteq> [] \<and> get_args line ! 0 = name)"

definition stoi_ok :: "string \<Rightarrow> bool" where
  "stoi_ok str = (case stoi str of Inl f \<Rightarrow> False | Inr i \<Rightarrow> True)"

definition edit_line :: "string \<Rightarrow> bool" where
  "edit_line line =
     ((command_is ''APPEND'' line \<and> 2 \<le> length (get_args line))
      \<or> (command_is ''REPLACE'' line \<and> 3 \<le> length (get_args line))
      \<or> (command_is ''DELETE'' line \<and> 2 \<le> length (get_args line)
          \<and> stoi_ok (get_args line ! 1)))"


text \<open>
  \<open>undo_path cur as init\<close>: undoing the Actions \<open>as\<close> one after the other, starting
  from the buffer \<open>cur\<close>, leads to the buffer \<open>init\<close>.
\<close>

fun undo_path :: "string \<Rightarrow> Action list \<Rightarrow> string \<Rightarrow> bool" where
  "undo_path cur [] init = (cur = init)"
| "undo_path cur (a # as) init = (next_str a = cur \<and> undo_path (prev_str a) as init)"

text \<open>
  What the three edit branches have in common: the Action \<open>a\<close> becomes the newest
  entry of the undo stack, its \<open>next_str\<close> becomes the buffer and the redo stack is
  cleared.
\<close>

definition record_edit :: "Action \<Rightarrow> session \<Rightarrow> session" where
  "record_edit a s =
     s\<lparr>current := next_str a, undoStack := undo_push a (undoStack s), redoStack := []\<rparr>"

section \<open>Properties\<close>

subsection \<open>The trim loop\<close>

lemma trim_loop_noop: "\<not> over_budget u \<Longrightarrow> trim_loop u = u"
  by (subst trim_loop.simps) (auto simp: over_budget_def)

lemma trim_loop_unfold:
  "over_budget u \<Longrightarrow>
   trim_loop u = trim_loop (u\<lparr>totalWeight := totalWeight u - weight (last (nodes u)),
                               nodes := butlast (nodes u)\<rparr>)"
  by (subst trim_loop.simps) (simp add: over_budget_def)

lemma evict_oldest_0: "evict_oldest 0 u = u"
  by (simp add: evict_oldest_def wsum_def)

lemma wsum_Nil [simp]: "wsum [] = 0"
  by (simp add: wsum_def)

lemma wsum_Cons [simp]: "wsum (a # ns) = weight a + wsum ns"
  by (simp add: wsum_def)

lemma wsum_append: "wsum (xs @ ys) = wsum xs + wsum ys"
  by (simp add: wsum_def)

lemma evict_oldest_Suc:
  assumes "nodes u \<noteq> []" and "j < length (nodes u)"
  shows "evict_oldest j (u\<lparr>totalWeight := totalWeight u - weight (last (nodes u)),
                            nodes := butlast (nodes u)\<rparr>) = evict_oldest (Suc j) u"
proof -
  let ?ns = "nodes u"
  let ?k = "length ?ns - Suc j"
  have k: "?k \<le> length (butlast ?ns)" by simp
  have t: "take ?k (butlast ?ns) = take ?k ?ns"
    using assms by (simp add: take_butlast)
  have "drop ?k ?ns = drop ?k (butlast ?ns @ [last ?ns])"
    using assms by simp
  also have "\<dots> = drop ?k (butlast ?ns) @ [last ?ns]"
    using k by simp
  finally have d: "wsum (drop ?k ?ns) = wsum (drop ?k (butlast ?ns)) + weight (last ?ns)"
    by (simp add: wsum_def)
  show ?thesis
    using t d by (simp add: evict_oldest_def)
qed

lemma trim_loop_evict:
  "\<exists>j\<le>length (nodes u). trim_loop u = evict_oldest j u
      \<and> (\<forall>i<j. over_budget (evict_oldest i u)) \<and> \<not> over_budget (evict_oldest j u)"
proof (induction u rule: trim_loop.induct)
  case (1 u)
  show ?case
  proof (cases "over_budget u")
    case False
    then have "trim_loop u = evict_oldest 0 u \<and> \<not> over_budget (evict_oldest 0 u)"
      by (simp add: trim_loop_noop evict_oldest_0)
    then show ?thesis by blast
  next
    case True
    let ?u1 = "u\<lparr>totalWeight := totalWeight u - weight (last (nodes u)),
                  nodes := butlast (nodes u)\<rparr>"
    from True have ne: "nodes u \<noteq> []" and ov: "maxWeight u < totalWeight u"
      by (simp_all add: over_budget_def)
    from "1.IH" ne ov obtain j where j: "j \<le> length (nodes ?u1)"
      and eq: "trim_loop ?u1 = evict_oldest j ?u1"
      and all: "\<forall>i<j. over_budget (evict_oldest i ?u1)"
      and stop: "\<not> over_budget (evict_oldest j ?u1)"
      by auto
    from j ne have jl: "j < length (nodes u)"
      by (cases "nodes u" rule: rev_cases) simp_all
    have sh: "\<And>i. i \<le> j \<Longrightarrow> evict_oldest i ?u1 = evict_oldest (Suc i) u"
      using evict_oldest_Suc [OF ne] jl by simp
    have a: "trim_loop u = evict_oldest (Suc j) u"
      using trim_loop_unfold [OF True] eq sh by simp
    have b: "\<forall>i<Suc j. over_budget (evict_oldest i u)"
    proof (intro allI impI)
      fix i assume "i < Suc j"
      show "over_budget (evict_oldest i u)"
      proof (cases i)
        case 0
        with True show ?thesis by (simp add: evict_oldest_0)
      next
        case (Suc i')
        with \<open>i < Suc j\<close> have "i' < j" by simp
        with all have "over_budget (evict_oldest i' ?u1)" by blast
        with sh [of i'] \<open>i' < j\<close> Suc show ?thesis by simp
      qed
    qed
    have c: "\<not> over_budget (evict_oldest (Suc j) u)"
      using stop sh [of j] by simp
    from jl a b c show ?thesis
      by (intro exI [of _ "Suc j"]) simp
  qed
qed



lemma trim_maxWeight: "maxWeight (trim u) = maxWeight u"
  using trim_loop_evict [of u] by (auto simp: trim_def evict_oldest_def Let_def)

lemma trim_nodes_take: "\<exists>k. nodes (trim u) = take k (nodes u)"
  using trim_loop_evict [of u] by (auto simp: trim_def evict_oldest_def Let_def)

lemma wsum_nonneg: "list_all (\<lambda>a. 0 \<le> weight a) ns \<Longrightarrow> 0 \<le> wsum ns"
  by (induction ns) (simp_all add: wsum_def)

lemma wsum_take_drop: "wsum ns - wsum (drop k ns) = wsum (take k ns)"
  using wsum_append [of "take k ns" "drop k ns"] by simp

lemma list_all_take: "list_all P ns \<Longrightarrow> list_all P (take k ns)"
  by (auto simp: list_all_iff dest: in_set_takeD)

lemma trim_establishes_inv:
  assumes nn: "list_all (\<lambda>a. 0 \<le> weight a) (nodes u)"
    and sum: "totalWeight u = wsum (nodes u)"
    and cap: "0 \<le> maxWeight u"
  shows "undo_inv (trim u)"
proof -
  from trim_loop_evict [of u] obtain j where eq: "trim_loop u = evict_oldest j u"
    and stop: "\<not> over_budget (evict_oldest j u)"
    by blast
  let ?k = "length (nodes u) - j"
  have n: "nodes (trim_loop u) = take ?k (nodes u)"
    by (simp add: eq evict_oldest_def)
  have t: "totalWeight (trim_loop u) = wsum (take ?k (nodes u))"
    by (simp add: eq evict_oldest_def sum wsum_take_drop)
  have m: "maxWeight (trim_loop u) = maxWeight u"
    by (simp add: eq evict_oldest_def)
  have nn': "list_all (\<lambda>a. 0 \<le> weight a) (take ?k (nodes u))"
    using nn by (rule list_all_take)
  then have pos: "0 \<le> totalWeight (trim_loop u)"
    by (simp add: t wsum_nonneg)
  have le: "totalWeight (trim_loop u) \<le> maxWeight u"
  proof (cases "nodes (trim_loop u) = []")
    case True
    with n have "take ?k (nodes u) = []" by simp
    with t have "totalWeight (trim_loop u) = 0" by (simp only: wsum_def list.map sum_list.Nil)
    with cap show ?thesis by simp
  next
    case False
    with stop show ?thesis by (simp add: over_budget_def eq [symmetric] m)
  qed
  from pos have "trim u = trim_loop u" by (simp add: trim_def)
  with n t m nn' le show ?thesis by (simp add: undo_inv_def)
qed

lemma undo_inv_nonneg: "undo_inv u \<Longrightarrow> 0 \<le> totalWeight u"
  by (simp add: undo_inv_def wsum_nonneg)

lemma undo_inv_le: "undo_inv u \<Longrightarrow> totalWeight u \<le> maxWeight u"
  by (simp add: undo_inv_def)

lemma undo_inv_cap: "undo_inv u \<Longrightarrow> 0 \<le> maxWeight u"
  using undo_inv_nonneg [of u] by (simp add: undo_inv_def)

lemma trim_noop:
  assumes "0 \<le> totalWeight u" and "totalWeight u \<le> maxWeight u"
  shows "trim u = u"
proof -
  from assms have "\<not> over_budget u" by (simp add: over_budget_def)
  then have "trim_loop u = u" by (rule trim_loop_noop)
  with assms show ?thesis by (simp add: trim_def)
qed

lemma wrap32_id: "INT_MIN \<le> x \<Longrightarrow> x \<le> INT_MAX \<Longrightarrow> wrap32 x = x"
  by (simp add: wrap32_def INT_MIN_def INT_MAX_def)

lemma wrap32_le: "0 \<le> x \<Longrightarrow> wrap32 x \<le> x"
proof -
  assume "0 \<le> x"
  then have "(x + 2147483648) mod 4294967296 \<le> x + 2147483648"
    by (intro zmod_le_nonneg_dividend) simp
  then show ?thesis by (simp add: wrap32_def)
qed

lemma wrap32_range: "INT_MIN \<le> wrap32 x \<and> wrap32 x \<le> INT_MAX"
proof -
  have "0 \<le> (x + 2147483648) mod 4294967296" and "(x + 2147483648) mod 4294967296 < 4294967296"
    by simp_all
  then show ?thesis by (simp add: wrap32_def INT_MIN_def INT_MAX_def)
qed

lemma undo_push_exact:
  assumes "0 \<le> totalWeight u + weight a" and "totalWeight u + weight a \<le> INT_MAX"
  shows "undo_push a u
    = trim (u\<lparr>nodes := a # nodes u, totalWeight := totalWeight u + weight a\<rparr>)"
proof -
  from assms have "wrap32 (totalWeight u + weight a) = totalWeight u + weight a"
    by (intro wrap32_id) (simp_all add: INT_MIN_def)
  then show ?thesis by (simp add: undo_push_def)
qed



lemma undo_push_nodes_take: "\<exists>k. nodes (undo_push a u) = take k (a # nodes u)"
  using trim_nodes_take [of "u\<lparr>nodes := a # nodes u,
      totalWeight := wrap32 (totalWeight u + weight a)\<rparr>"]
  by (simp add: undo_push_def)

lemma undo_push_fits:
  assumes "0 \<le> totalWeight u + weight a" and "totalWeight u + weight a \<le> maxWeight u"
    and "maxWeight u \<le> INT_MAX"
  shows "undo_push a u = u\<lparr>nodes := a # nodes u, totalWeight := totalWeight u + weight a\<rparr>"
proof -
  from assms have "totalWeight u + weight a \<le> INT_MAX" by simp
  from undo_push_exact [OF assms(1) this] assms(1,2) show ?thesis
    by (simp add: trim_noop)
qed

lemma setMaxWeight_inv:
  assumes "list_all (\<lambda>a. 0 \<le> weight a) (nodes u)" and "totalWeight u = wsum (nodes u)"
  shows "undo_inv (setMaxWeight mw u)"
  unfolding setMaxWeight_def using assms by (intro trim_establishes_inv) simp_all

lemma undo_clear_inv: "undo_inv u \<Longrightarrow> undo_inv (undo_clear u)"
  using undo_inv_cap [of u] by (simp add: undo_inv_def undo_clear_def wsum_def)

lemma undo_pop_inv:
  assumes "undo_inv u" and "nodes u = a # rest"
  shows "undo_pop u = Inr (a, u\<lparr>nodes := rest, totalWeight := totalWeight u - weight a\<rparr>)"
    and "undo_inv (u\<lparr>nodes := rest, totalWeight := totalWeight u - weight a\<rparr>)"
proof -
  from assms have r: "list_all (\<lambda>a. 0 \<le> weight a) rest" and w: "0 \<le> weight a"
    and t: "totalWeight u - weight a = wsum rest" and c: "totalWeight u \<le> maxWeight u"
    by (simp_all add: undo_inv_def wsum_def)
  from r have "0 \<le> wsum rest" by (rule wsum_nonneg)
  with t show "undo_pop u = Inr (a, u\<lparr>nodes := rest, totalWeight := totalWeight u - weight a\<rparr>)"
    by (simp add: undo_pop_def assms(2))
  from r w t c show "undo_inv (u\<lparr>nodes := rest, totalWeight := totalWeight u - weight a\<rparr>)"
    by (simp add: undo_inv_def)
qed



text \<open>The bounds that survive a sum that wraps around.\<close>

lemma trim_bounds:
  assumes nn: "list_all (\<lambda>a. 0 \<le> weight a) (nodes u)"
    and le: "totalWeight u \<le> wsum (nodes u)"
    and cap: "0 \<le> maxWeight u" and cap': "maxWeight u \<le> INT_MAX"
  shows "undo_bounds (trim u)"
proof -
  from trim_loop_evict [of u] obtain j where eq: "trim_loop u = evict_oldest j u"
    and stop: "\<not> over_budget (evict_oldest j u)"
    by blast
  let ?k = "length (nodes u) - j"
  let ?v = "trim_loop u"
  have n: "nodes ?v = take ?k (nodes u)"
    by (simp add: eq evict_oldest_def)
  have "totalWeight ?v = totalWeight u - wsum (drop ?k (nodes u))"
    by (simp add: eq evict_oldest_def)
  with le have t: "totalWeight ?v \<le> wsum (take ?k (nodes u))"
    using wsum_take_drop [of "nodes u" ?k] by simp
  have m: "maxWeight ?v = maxWeight u"
    by (simp add: eq evict_oldest_def)
  have nn': "list_all (\<lambda>a. 0 \<le> weight a) (take ?k (nodes u))"
    using nn by (rule list_all_take)
  then have pos: "0 \<le> wsum (take ?k (nodes u))" by (rule wsum_nonneg)
  have c: "totalWeight ?v \<le> maxWeight u"
  proof (cases "nodes ?v = []")
    case True
    with n have "take ?k (nodes u) = []" by simp
    with t have "totalWeight ?v \<le> 0" by simp
    with cap show ?thesis by simp
  next
    case False
    with stop show ?thesis by (simp add: over_budget_def eq [symmetric] m)
  qed
  show ?thesis
  proof (cases "totalWeight ?v < 0")
    case True
    then have "trim u = ?v\<lparr>totalWeight := 0\<rparr>" by (simp add: trim_def)
    with n m nn' pos cap cap' show ?thesis by (simp add: undo_bounds_def)
  next
    case False
    then have "trim u = ?v" by (simp add: trim_def)
    with False n m nn' t c cap' show ?thesis by (simp add: undo_bounds_def)
  qed
qed

lemma undo_push_bounds:
  assumes b: "undo_bounds u" and w: "0 \<le> weight a"
  shows "undo_bounds (undo_push a u)"
proof -
  from b w have "0 \<le> totalWeight u + weight a" by (simp add: undo_bounds_def)
  then have "wrap32 (totalWeight u + weight a) \<le> totalWeight u + weight a"
    by (rule wrap32_le)
  with b w show ?thesis
    unfolding undo_push_def
    by (intro trim_bounds) (simp_all add: undo_bounds_def)
qed

lemma setMaxWeight_bounds:
  assumes "list_all (\<lambda>a. 0 \<le> weight a) (nodes u)" and "totalWeight u \<le> wsum (nodes u)"
    and "mw \<le> INT_MAX"
  shows "undo_bounds (setMaxWeight mw u)"
  unfolding setMaxWeight_def using assms
  by (intro trim_bounds) (simp_all add: INT_MAX_def)

lemma undo_pop_bounds:
  assumes "undo_bounds u" and "undo_pop u = Inr (a, u')"
  shows "undo_bounds u' \<and> 0 \<le> weight a"
proof (cases "nodes u")
  case Nil
  with assms(2) show ?thesis by (simp add: undo_pop_def)
next
  case (Cons b rest)
  with assms(1) have "0 \<le> wsum rest"
    by (simp add: undo_bounds_def wsum_nonneg)
  with assms Cons show ?thesis
    by (auto simp: undo_pop_def undo_bounds_def Let_def)
qed

lemma undo_inv_bounds: "undo_inv u \<Longrightarrow> maxWeight u \<le> INT_MAX \<Longrightarrow> undo_bounds u"
  by (simp add: undo_inv_def undo_bounds_def wsum_nonneg)


subsection \<open>The branches of the command loop\<close>

lemma get_args_Nil: "get_args [] = []"
  by (simp add: get_args_def)

lemma command_is_line: "command_is name line \<Longrightarrow> line \<noteq> [] \<and> get_args line \<noteq> []"
  by (auto simp: command_is_def get_args_Nil)

lemma step_CREATE:
  assumes "command_is ''CREATE'' line" and "3 \<le> length (get_args line)"
  shows "step s line =
    (case stoi (get_args line ! 1) of Inl f \<Rightarrow> Inl f
     | Inr mw \<Rightarrow> Inr (do_CREATE mw (get_args line ! 2) s))"
  using assms command_is_line [OF assms(1)] by (simp add: step_def command_is_def Let_def)

lemma step_not_created:
  assumes "\<not> created s" and "\<not> command_is ''CREATE'' line"
  shows "step s line = Inr s"
  using assms by (auto simp: step_def command_is_def Let_def)

lemma step_APPEND:
  assumes "created s" and "command_is ''APPEND'' line" and "2 \<le> length (get_args line)"
  shows "step s line = Inr (do_APPEND (get_args line ! 1) s)"
  using assms command_is_line [OF assms(2)] by (simp add: step_def command_is_def Let_def)

lemma step_REPLACE:
  assumes "created s" and "command_is ''REPLACE'' line" and "3 \<le> length (get_args line)"
  shows "step s line = Inr (do_REPLACE (get_args line ! 1) (get_args line ! 2) s)"
  using assms command_is_line [OF assms(2)] by (simp add: step_def command_is_def Let_def)

lemma step_DELETE:
  assumes "created s" and "command_is ''DELETE'' line" and "2 \<le> length (get_args line)"
  shows "step s line =
    (case stoi (get_args line ! 1) of Inl f \<Rightarrow> Inl f | Inr i \<Rightarrow> Inr (do_DELETE i s))"
  using assms command_is_line [OF assms(2)] by (simp add: step_def command_is_def Let_def)

lemma step_UNDO:
  assumes "created s" and "command_is ''UNDO'' line"
  shows "step s line = do_UNDO s"
  using assms command_is_line [OF assms(2)] by (simp add: step_def command_is_def Let_def)

lemma step_REDO:
  assumes "created s" and "command_is ''REDO'' line"
  shows "step s line = do_REDO s"
  using assms command_is_line [OF assms(2)] by (simp add: step_def command_is_def Let_def)

lemma replace_loop_count: "0 \<le> snd (replace_loop findc repc cs)"
  by (induction cs) (simp_all add: split_beta)


text \<open>Each edit records one Action that starts at the buffer, and pushes it.\<close>

lemma do_APPEND_edit:
  "\<exists>a. do_APPEND add s = record_edit a s \<and> prev_str a = current s \<and> 0 \<le> weight a"
  by (rule exI [of _ "\<lparr>prev_str = current s, next_str = current s @ add,
        weight = int (length add)\<rparr>"])
     (simp add: do_APPEND_def record_edit_def redo_clear_def)

lemma do_REPLACE_edit:
  "\<exists>a. do_REPLACE arg1 arg2 s = record_edit a s \<and> prev_str a = current s \<and> 0 \<le> weight a"
proof -
  obtain cur' n where r: "replace_loop (first_char arg1) (first_char arg2) (current s) = (cur', n)"
    by (cases "replace_loop (first_char arg1) (first_char arg2) (current s)")
  with replace_loop_count [of "first_char arg1" "first_char arg2" "current s"] have "0 \<le> n"
    by simp
  with r show ?thesis
    by (intro exI [of _ "\<lparr>prev_str = current s, next_str = cur', weight = n\<rparr>"])
       (simp add: do_REPLACE_def record_edit_def redo_clear_def)
qed

lemma do_DELETE_edit:
  "\<exists>a. do_DELETE i s = record_edit a s \<and> prev_str a = current s \<and> 0 \<le> weight a"
  unfolding do_DELETE_def Let_def record_edit_def redo_clear_def
  by (rule exI [of _ "\<lparr>prev_str = current s,
        next_str = take (nat (if (if i < 0 then 0 else i) > int (length (current s))
                              then int (length (current s)) else (if i < 0 then 0 else i)))
                     (current s),
        weight = int (length (current s)) -
                 (if (if i < 0 then 0 else i) > int (length (current s))
                  then int (length (current s)) else (if i < 0 then 0 else i))\<rparr>"])
     simp

lemma step_edit:
  assumes "created s" and "edit_line line"
  shows "\<exists>a. step s line = Inr (record_edit a s) \<and> prev_str a = current s \<and> 0 \<le> weight a"
  using assms do_APPEND_edit do_REPLACE_edit do_DELETE_edit
  by (auto simp: edit_line_def stoi_ok_def step_APPEND step_REPLACE step_DELETE
           split: sum.splits)


subsection \<open>What holds in every state the program reaches\<close>

lemma do_CREATE_fields:
  "created (do_CREATE mw text0 s)" "current (do_CREATE mw text0 s) = text0"
  "nodes (undoStack (do_CREATE mw text0 s)) = []" "redoStack (do_CREATE mw text0 s) = []"
  "maxWeight (undoStack (do_CREATE mw text0 s)) = (if mw < 0 then 0 else mw)"
  "cout (do_CREATE mw text0 s) = cout s" "capacity (do_CREATE mw text0 s) = mw"
proof -
  have "nodes (undo_clear (undoStack s)) = []" by (simp add: undo_clear_def)
  then have "nodes (setMaxWeight mw (undo_clear (undoStack s))) = []"
    using trim_nodes_take [of "(undo_clear (undoStack s))\<lparr>maxWeight := (if mw < 0 then 0 else mw)\<rparr>"]
    by (simp add: setMaxWeight_def)
  then show "nodes (undoStack (do_CREATE mw text0 s)) = []" by (simp add: do_CREATE_def)
qed (simp_all add: do_CREATE_def redo_clear_def setMaxWeight_def trim_maxWeight)

lemma do_CREATE_undo_inv: "undo_inv (undoStack (do_CREATE mw text0 s))"
proof -
  have "undo_inv (setMaxWeight mw (undo_clear (undoStack s)))"
    by (rule setMaxWeight_inv) (simp_all add: undo_clear_def)
  then show ?thesis by (simp add: do_CREATE_def)
qed

lemma undo_chain_take: "undo_chain cur ns \<Longrightarrow> undo_chain cur (take k ns)"
proof (induction ns arbitrary: cur k)
  case Nil
  then show ?case by simp
next
  case (Cons a ns)
  then show ?case by (cases k) simp_all
qed

lemma main_init_chain: "chain_inv main_init"
  by (simp add: chain_inv_def main_init_def undo_init_def)

lemma do_CREATE_chain: "chain_inv (do_CREATE mw text0 s)"
  by (simp add: chain_inv_def do_CREATE_fields)

lemma undo_push_chain:
  assumes "undo_chain cur (nodes u)" and "prev_str a = cur"
  shows "undo_chain (next_str a) (nodes (undo_push a u))"
proof -
  from undo_push_nodes_take [of a u] obtain k
    where k: "nodes (undo_push a u) = take k (a # nodes u)" by blast
  have "undo_chain (next_str a) (a # nodes u)" using assms by simp
  then show ?thesis unfolding k by (rule undo_chain_take)
qed

lemma record_edit_chain:
  assumes "chain_inv s" and "created s" and "prev_str a = current s"
  shows "chain_inv (record_edit a s)"
  using assms undo_push_chain [of "current s" "undoStack s" a]
  by (simp add: chain_inv_def record_edit_def)

lemma do_UNDO_chain:
  assumes inv: "chain_inv s" and c: "created s" and r: "do_UNDO s = Inr s'"
  shows "chain_inv s'"
proof (cases "nodes (undoStack s)")
  case Nil
  with r have "s' = s\<lparr>cout := cout s @ nothing_to_undo\<rparr>"
    by (auto simp: do_UNDO_def undo_empty_def)
  with inv show ?thesis by (simp add: chain_inv_def)
next
  case (Cons a rest)
  with r have "nodes (undoStack s') = rest \<and> current s' = prev_str a
      \<and> redoStack s' = a # redoStack s \<and> created s' = created s"
    by (auto simp: do_UNDO_def undo_empty_def undo_pop_def redo_push_def Let_def)
  with inv Cons c show ?thesis by (simp add: chain_inv_def)
qed

lemma do_REDO_chain:
  assumes inv: "chain_inv s" and c: "created s" and r: "do_REDO s = Inr s'"
  shows "chain_inv s'"
proof (cases "redoStack s")
  case Nil
  with r have "s' = s\<lparr>cout := cout s @ nothing_to_redo\<rparr>"
    by (auto simp: do_REDO_def redo_empty_def)
  with inv show ?thesis by (simp add: chain_inv_def)
next
  case (Cons a rest)
  with r have s': "s' = s\<lparr>redoStack := rest, current := next_str a,
      undoStack := undo_push a (undoStack s)\<rparr>"
    by (auto simp: do_REDO_def redo_empty_def redo_pop_def)
  from inv Cons have "undo_chain (current s) (nodes (undoStack s))"
    and "prev_str a = current s" and "redo_chain (next_str a) rest"
    by (simp_all add: chain_inv_def)
  with c undo_push_chain [of "current s" "undoStack s" a] show ?thesis
    by (simp add: chain_inv_def s')
qed

lemma step_chain:
  assumes inv: "chain_inv s" and r: "step s line = Inr s'"
  shows "chain_inv s'"
proof -
  have e: "\<And>a. prev_str a = current s \<Longrightarrow> created s \<Longrightarrow> chain_inv (record_edit a s)"
    using inv by (simp add: record_edit_chain)
  from do_APPEND_edit e have A: "\<And>add. created s \<Longrightarrow> chain_inv (do_APPEND add s)"
    by metis
  from do_REPLACE_edit e have R: "\<And>x y. created s \<Longrightarrow> chain_inv (do_REPLACE x y s)"
    by metis
  from do_DELETE_edit e have D: "\<And>i. created s \<Longrightarrow> chain_inv (do_DELETE i s)"
    by metis
  have P: "chain_inv (do_PRINT s)"
    using inv by (simp add: chain_inv_def do_PRINT_def)
  from r show ?thesis
    unfolding step_def Let_def
    using inv A R D P do_CREATE_chain do_UNDO_chain [OF inv] do_REDO_chain [OF inv]
    by (auto split: if_splits sum.splits)
qed

lemma run_chain: "chain_inv s \<Longrightarrow> run s ls = Inr s' \<Longrightarrow> chain_inv s'"
proof (induction ls arbitrary: s)
  case Nil
  then show ?case by simp
next
  case (Cons l ls)
  from Cons.prems(2) obtain s1 where 1: "step s l = Inr s1" and 2: "run s1 ls = Inr s'"
    by (auto split: sum.splits)
  from Cons.prems(1) 1 have "chain_inv s1" by (rule step_chain)
  then show ?case using 2 by (rule Cons.IH)
qed

lemma reachable_chain: "run main_init ls = Inr s \<Longrightarrow> chain_inv s"
  using main_init_chain by (rule run_chain)

lemma chain_inv_created: "chain_inv s \<Longrightarrow> nodes (undoStack s) \<noteq> [] \<Longrightarrow> created s"
  by (auto simp: chain_inv_def)

text \<open>The bounds on the integers.\<close>

lemma stoi_range: "stoi str = Inr v \<Longrightarrow> INT_MIN \<le> v \<and> v \<le> INT_MAX"
  by (auto simp: stoi_def Let_def split: if_splits)

lemma main_init_bounds: "session_bounds main_init"
  by (simp add: session_bounds_def undo_bounds_def main_init_def undo_init_def
      INT_MIN_def INT_MAX_def)

lemma do_CREATE_bounds:
  assumes "INT_MIN \<le> mw" and "mw \<le> INT_MAX"
  shows "session_bounds (do_CREATE mw text0 s)"
proof -
  have "undo_bounds (setMaxWeight mw (undo_clear (undoStack s)))"
    using assms(2) by (intro setMaxWeight_bounds) (simp_all add: undo_clear_def)
  with assms show ?thesis
    by (simp add: session_bounds_def do_CREATE_def redo_clear_def)
qed

lemma record_edit_bounds:
  assumes "session_bounds s" and "0 \<le> weight a"
  shows "session_bounds (record_edit a s)"
  using assms by (simp add: session_bounds_def record_edit_def undo_push_bounds)

lemma do_UNDO_bounds:
  assumes b: "session_bounds s" and r: "do_UNDO s = Inr s'"
  shows "session_bounds s'"
proof (cases "undo_empty (undoStack s)")
  case True
  with r have "s' = s\<lparr>cout := cout s @ nothing_to_undo\<rparr>" by (auto simp: do_UNDO_def)
  with b show ?thesis by (simp add: session_bounds_def)
next
  case False
  with r obtain a u' where p: "undo_pop (undoStack s) = Inr (a, u')"
    and s': "s' = s\<lparr>undoStack := u', current := prev_str a, redoStack := a # redoStack s\<rparr>"
    by (auto simp: do_UNDO_def redo_push_def split: sum.splits)
  from b have "undo_bounds (undoStack s)" by (simp add: session_bounds_def)
  from undo_pop_bounds [OF this p] b show ?thesis
    by (simp add: session_bounds_def s')
qed

lemma do_REDO_bounds:
  assumes b: "session_bounds s" and r: "do_REDO s = Inr s'"
  shows "session_bounds s'"
proof (cases "redoStack s")
  case Nil
  with r have "s' = s\<lparr>cout := cout s @ nothing_to_redo\<rparr>"
    by (auto simp: do_REDO_def redo_empty_def)
  with b show ?thesis by (simp add: session_bounds_def)
next
  case (Cons a rest)
  with r have s': "s' = s\<lparr>redoStack := rest, current := next_str a,
      undoStack := undo_push a (undoStack s)\<rparr>"
    by (auto simp: do_REDO_def redo_empty_def redo_pop_def)
  from b Cons show ?thesis
    by (simp add: session_bounds_def s' undo_push_bounds)
qed

lemma step_bounds:
  assumes b: "session_bounds s" and r: "step s line = Inr s'"
  shows "session_bounds s'"
proof -
  have e: "\<And>a. 0 \<le> weight a \<Longrightarrow> session_bounds (record_edit a s)"
    using b by (simp add: record_edit_bounds)
  from do_APPEND_edit e have A: "\<And>add. session_bounds (do_APPEND add s)" by metis
  from do_REPLACE_edit e have R: "\<And>x y. session_bounds (do_REPLACE x y s)" by metis
  from do_DELETE_edit e have D: "\<And>i. session_bounds (do_DELETE i s)" by metis
  have P: "session_bounds (do_PRINT s)"
    using b by (simp add: session_bounds_def do_PRINT_def)
  from r show ?thesis
    unfolding step_def Let_def
    using b A R D P do_CREATE_bounds stoi_range do_UNDO_bounds [OF b] do_REDO_bounds [OF b]
    by (auto split: if_splits sum.splits)
qed

lemma run_bounds: "session_bounds s \<Longrightarrow> run s ls = Inr s' \<Longrightarrow> session_bounds s'"
proof (induction ls arbitrary: s)
  case Nil
  then show ?case by simp
next
  case (Cons l ls)
  from Cons.prems(2) obtain s1 where 1: "step s l = Inr s1" and 2: "run s1 ls = Inr s'"
    by (auto split: sum.splits)
  from Cons.prems(1) 1 have "session_bounds s1" by (rule step_bounds)
  then show ?case using 2 by (rule Cons.IH)
qed

lemma reachable_bounds: "run main_init ls = Inr s \<Longrightarrow> session_bounds s"
  using main_init_bounds by (rule run_bounds)


lemma reachable_empty_total:
  assumes "run main_init ls = Inr s" and "nodes (undoStack s) = []"
  shows "totalWeight (undoStack s) = 0"
  using reachable_bounds [OF assms(1)] assms(2)
  by (simp add: session_bounds_def undo_bounds_def)

subsection \<open>Runs of edits and of undos\<close>

lemma record_edit_created: "created (record_edit a s) = created s"
  by (simp add: record_edit_def)

lemma undo_path_append:
  "undo_path cur xs mid \<Longrightarrow> undo_path mid ys init \<Longrightarrow> undo_path cur (xs @ ys) init"
  by (induction xs arbitrary: cur) simp_all

lemma take_full_length: "length (take k xs) = length xs \<Longrightarrow> take k xs = xs"
  by (metis length_take min_def take_all_iff order_refl)

lemma undo_push_length: "length (nodes (undo_push a u)) \<le> Suc (length (nodes u))"
  using undo_push_nodes_take [of a u] by auto

lemma undo_push_kept:
  assumes "length (nodes (undo_push a u)) = Suc (length (nodes u))"
  shows "nodes (undo_push a u) = a # nodes u"
proof -
  from undo_push_nodes_take [of a u] obtain k
    where k: "nodes (undo_push a u) = take k (a # nodes u)" by blast
  with assms have "length (take k (a # nodes u)) = length (a # nodes u)" by simp
  then have "take k (a # nodes u) = a # nodes u" by (rule take_full_length)
  with k show ?thesis by simp
qed

lemma run_edits:
  assumes "created s" and "list_all edit_line es"
  shows "\<exists>s1. run s es = Inr s1 \<and> created s1
    \<and> length (nodes (undoStack s1)) \<le> length (nodes (undoStack s)) + length es
    \<and> (length (nodes (undoStack s1)) = length (nodes (undoStack s)) + length es \<longrightarrow>
         (\<exists>new. nodes (undoStack s1) = new @ nodes (undoStack s) \<and> length new = length es
            \<and> undo_path (current s1) new (current s)))"
  using assms
proof (induction es arbitrary: s)
  case Nil
  then show ?case by simp
next
  case (Cons e es)
  from Cons.prems have e: "edit_line e" and es: "list_all edit_line es" by simp_all
  from step_edit [OF Cons.prems(1) e] obtain a
    where st: "step s e = Inr (record_edit a s)" and p: "prev_str a = current s" by blast
  let ?m = "record_edit a s"
  have cm: "created ?m" using Cons.prems(1) by (simp add: record_edit_created)
  from Cons.IH [OF cm es] obtain s1 where r: "run ?m es = Inr s1" and c1: "created s1"
    and le: "length (nodes (undoStack s1)) \<le> length (nodes (undoStack ?m)) + length es"
    and eq: "length (nodes (undoStack s1)) = length (nodes (undoStack ?m)) + length es \<longrightarrow>
         (\<exists>new. nodes (undoStack s1) = new @ nodes (undoStack ?m) \<and> length new = length es
            \<and> undo_path (current s1) new (current ?m))"
    by blast
  have lm: "length (nodes (undoStack ?m)) \<le> Suc (length (nodes (undoStack s)))"
    by (simp add: record_edit_def undo_push_length)
  have run: "run s (e # es) = Inr s1" using st r by simp
  have bound: "length (nodes (undoStack s1)) \<le> length (nodes (undoStack s)) + length (e # es)"
    using le lm by simp
  have full: "\<exists>new. nodes (undoStack s1) = new @ nodes (undoStack s)
        \<and> length new = length (e # es) \<and> undo_path (current s1) new (current s)"
    if f: "length (nodes (undoStack s1)) = length (nodes (undoStack s)) + length (e # es)"
  proof -
    from f le lm have m: "length (nodes (undoStack ?m)) = Suc (length (nodes (undoStack s)))"
      and 1: "length (nodes (undoStack s1)) = length (nodes (undoStack ?m)) + length es"
      by simp_all
    from m have nm: "nodes (undoStack ?m) = a # nodes (undoStack s)"
      by (simp add: record_edit_def undo_push_kept)
    from eq 1 obtain new where n: "nodes (undoStack s1) = new @ nodes (undoStack ?m)"
      and l: "length new = length es" and pa: "undo_path (current s1) new (current ?m)"
      by blast
    have "undo_path (current ?m) [a] (current s)"
      using p by (simp add: record_edit_def)
    with pa have "undo_path (current s1) (new @ [a]) (current s)"
      by (rule undo_path_append)
    with n nm l show ?thesis
      by (intro exI [of _ "new @ [a]"]) simp
  qed
  from run c1 bound full show ?case by blast
qed

lemma run_undos:
  assumes "created s" and "nodes (undoStack s) = new @ rest"
    and "undo_path (current s) new init"
    and "list_all (command_is ''UNDO'') us" and "length us = length new"
  shows "\<exists>s2. run s us = Inr s2 \<and> current s2 = init \<and> nodes (undoStack s2) = rest
    \<and> cout s2 = cout s \<and> redoStack s2 = rev new @ redoStack s \<and> created s2"
  using assms
proof (induction new arbitrary: s us)
  case Nil
  then show ?case by simp
next
  case (Cons a new)
  from Cons.prems(5) obtain u us' where us: "us = u # us'" by (cases us) auto
  with Cons.prems have u: "command_is ''UNDO'' u" and us': "list_all (command_is ''UNDO'') us'"
    and l: "length us' = length new" by simp_all
  let ?m = "s\<lparr>undoStack := (undoStack s)\<lparr>nodes := new @ rest,
        totalWeight := (if totalWeight (undoStack s) - weight a < 0 then 0
                        else totalWeight (undoStack s) - weight a)\<rparr>,
      current := prev_str a, redoStack := a # redoStack s\<rparr>"
  have st: "step s u = Inr ?m"
    using Cons.prems(1,2) u
    by (simp add: step_UNDO do_UNDO_def undo_empty_def undo_pop_def redo_push_def Let_def)
  from Cons.prems(3) have pa: "undo_path (current ?m) new init" by simp
  have "created ?m" using Cons.prems(1) by simp
  moreover have "nodes (undoStack ?m) = new @ rest" by simp
  ultimately obtain s2 where "run ?m us' = Inr s2" and "current s2 = init"
    and "nodes (undoStack s2) = rest" and "cout s2 = cout ?m"
    and "redoStack s2 = rev new @ redoStack ?m" and "created s2"
    using Cons.IH [OF _ _ pa us' l] by blast
  with st us show ?case by simp
qed


text \<open>
  \<^bold>\<open>Claim C1, amended.\<close> Let \<open>c\<close> be a CREATE line that the loop executes, \<open>es\<close>
  Append/Replace/Delete lines and \<open>us\<close> as many Undo lines. If none of the recorded
  Actions was evicted by the weight cap, that is, if the undo stack holds \<open>length es\<close>
  entries after the edits, then running the Undo lines returns the buffer to the text it
  had immediately after the CREATE.
\<close>
theorem undo_all_restores_if_nothing_evicted:
  assumes "command_is ''CREATE'' c" and "3 \<le> length (get_args c)"
    and "stoi_ok (get_args c ! 1)"
    and "list_all edit_line es"
    and "list_all (command_is ''UNDO'') us" and "length us = length es"
    and "run s (c # es) = Inr s1"
    and "length (nodes (undoStack s1)) = length es"
  shows "\<exists>s0 s2. run s [c] = Inr s0 \<and> current s0 = get_args c ! 2
           \<and> run s1 us = Inr s2 \<and> current s2 = current s0"
proof -
  from assms(3) obtain mw where "stoi (get_args c ! 1) = Inr mw"
    by (auto simp: stoi_ok_def split: sum.splits)
  with assms(1,2) have st: "step s c = Inr (do_CREATE mw (get_args c ! 2) s)"
    by (simp add: step_CREATE)
  let ?s0 = "do_CREATE mw (get_args c ! 2) s"
  from st assms(7) have r: "run ?s0 es = Inr s1" by simp
  have c0: "created ?s0" and n0: "nodes (undoStack ?s0) = []"
    and t0: "current ?s0 = get_args c ! 2"
    by (simp_all add: do_CREATE_fields)
  from run_edits [OF c0 assms(4)] r assms(8) n0 obtain new
    where c1: "created s1" and n1: "nodes (undoStack s1) = new @ []"
      and l: "length new = length es" and pa: "undo_path (current s1) new (current ?s0)"
    by auto
  from assms(6) l have "length us = length new" by simp
  from run_undos [OF c1 n1 pa assms(5) this] obtain s2
    where "run s1 us = Inr s2" and "current s2 = current ?s0" by blast
  with st t0 show ?thesis by simp
qed

text \<open>
  An instance: \<^verbatim>\<open>CREATE 100 abc\<close>, two edits of weights 2 and 4, two Undo lines.
\<close>
theorem undo_all_restores_witness:
  "run main_init [''CREATE 100 abc'', ''APPEND de'', ''DELETE 1'']
     = Inr \<lparr>current = ''a'', created = True, capacity = 100,
            undoStack = \<lparr>nodes = [\<lparr>prev_str = ''abcde'', next_str = ''a'', weight = 4\<rparr>,
                                  \<lparr>prev_str = ''abc'', next_str = ''abcde'', weight = 2\<rparr>],
                         totalWeight = 6, maxWeight = 100\<rparr>,
            redoStack = [], cout = []\<rparr>
   \<and> (\<exists>s0 s2. run main_init [''CREATE 100 abc''] = Inr s0 \<and> current s0 = ''abc''
        \<and> run \<lparr>current = ''a'', created = True, capacity = 100,
            undoStack = \<lparr>nodes = [\<lparr>prev_str = ''abcde'', next_str = ''a'', weight = 4\<rparr>,
                                  \<lparr>prev_str = ''abc'', next_str = ''abcde'', weight = 2\<rparr>],
                         totalWeight = 6, maxWeight = 100\<rparr>,
            redoStack = [], cout = []\<rparr> [''UNDO'', ''UNDO''] = Inr s2
        \<and> current s2 = current s0)"
proof -
  let ?s1 = "\<lparr>current = ''a'', created = True, capacity = 100,
            undoStack = \<lparr>nodes = [\<lparr>prev_str = ''abcde'', next_str = ''a'', weight = 4\<rparr>,
                                  \<lparr>prev_str = ''abc'', next_str = ''abcde'', weight = 2\<rparr>],
                         totalWeight = 6, maxWeight = 100\<rparr>,
            redoStack = [], cout = []\<rparr>"
  have 1: "command_is ''CREATE'' ''CREATE 100 abc''" by code_simp
  have 2: "3 \<le> length (get_args ''CREATE 100 abc'')" by code_simp
  have 3: "stoi_ok (get_args ''CREATE 100 abc'' ! 1)" by code_simp
  have 4: "list_all edit_line [''APPEND de'', ''DELETE 1'']" by code_simp
  have 5: "list_all (command_is ''UNDO'') [''UNDO'', ''UNDO'']" by code_simp
  have 6: "length [''UNDO'', ''UNDO''] = length [''APPEND de'', ''DELETE 1'']" by simp
  have 7: "run main_init [''CREATE 100 abc'', ''APPEND de'', ''DELETE 1''] = Inr ?s1"
    by code_simp
  have 8: "length (nodes (undoStack ?s1)) = length [''APPEND de'', ''DELETE 1'']" by simp
  have 9: "get_args ''CREATE 100 abc'' ! 2 = ''abc''" by code_simp
  from undo_all_restores_if_nothing_evicted [OF 1 2 3 4 5 6 7 8] 7 9 show ?thesis
    by simp
qed

text \<open>
  Claim C1 as stated, for all capacities: with capacity 2 the Action of \<^verbatim>\<open>APPEND xyz\<close>
  (weight 3) is evicted as soon as it is pushed, the one Undo finds nothing to undo and
  the buffer stays \<^verbatim>\<open>abcxyz\<close>, while it was \<^verbatim>\<open>abc\<close> after the CREATE.
\<close>
theorem undo_after_eviction_counterexample:
  "run main_init [''CREATE 2 abc''] =
     Inr \<lparr>current = ''abc'', created = True, capacity = 2,
          undoStack = \<lparr>nodes = [], totalWeight = 0, maxWeight = 2\<rparr>,
          redoStack = [], cout = []\<rparr>
   \<and> run main_init [''CREATE 2 abc'', ''APPEND xyz'', ''UNDO''] =
     Inr \<lparr>current = ''abcxyz'', created = True, capacity = 2,
          undoStack = \<lparr>nodes = [], totalWeight = 0, maxWeight = 2\<rparr>,
          redoStack = [], cout = nothing_to_undo\<rparr>"
  by code_simp


subsection \<open>Edits of weight 0\<close>









subsection \<open>Undo and redo in reachable states\<close>

text \<open>
  \<^bold>\<open>Claim C6, amended.\<close> In every state the program can reach, an Undo that succeeds
  followed by a Redo succeeds too (nothing is written to the output) and leaves the
  buffer equal to its value immediately before the Undo. The remark of the claim that
  capacity 0 forces an eviction of the re-pushed Action every time is dropped.
\<close>
theorem undo_then_redo_restores:
  assumes reach: "run main_init ls = Inr s" and ne: "nodes (undoStack s) \<noteq> []"
    and u: "command_is ''UNDO'' u" and r: "command_is ''REDO'' r"
  shows "\<exists>s1 s2. step s u = Inr s1 \<and> step s1 r = Inr s2
           \<and> current s2 = current s \<and> cout s2 = cout s"
proof -
  from reach have inv: "chain_inv s" by (rule reachable_chain)
  from inv ne have c: "created s" by (rule chain_inv_created)
  from ne obtain a rest where n: "nodes (undoStack s) = a # rest"
    by (cases "nodes (undoStack s)") auto
  from inv n have cur: "next_str a = current s" by (simp add: chain_inv_def)
  from c u n obtain s1 where 1: "step s u = Inr s1" and c1: "created s1"
    and r1: "redoStack s1 = a # redoStack s" and o1: "cout s1 = cout s"
    by (simp add: step_UNDO do_UNDO_def undo_empty_def undo_pop_def redo_push_def Let_def)
  from c1 r r1 obtain s2 where 2: "step s1 r = Inr s2" and "current s2 = next_str a"
    and "cout s2 = cout s1"
    by (simp add: step_REDO do_REDO_def redo_empty_def redo_pop_def)
  with 1 cur o1 show ?thesis by simp
qed

text \<open>An instance: the state after \<^verbatim>\<open>CREATE 100 abc\<close> and \<^verbatim>\<open>APPEND de\<close>.\<close>
theorem undo_then_redo_witness:
  "run main_init [''CREATE 100 abc'', ''APPEND de'']
     = Inr \<lparr>current = ''abcde'', created = True, capacity = 100,
            undoStack = \<lparr>nodes = [\<lparr>prev_str = ''abc'', next_str = ''abcde'', weight = 2\<rparr>],
                         totalWeight = 2, maxWeight = 100\<rparr>,
            redoStack = [], cout = []\<rparr>
   \<and> (\<exists>s1 s2. step \<lparr>current = ''abcde'', created = True, capacity = 100,
            undoStack = \<lparr>nodes = [\<lparr>prev_str = ''abc'', next_str = ''abcde'', weight = 2\<rparr>],
                         totalWeight = 2, maxWeight = 100\<rparr>,
            redoStack = [], cout = []\<rparr> ''UNDO'' = Inr s1
         \<and> step s1 ''REDO'' = Inr s2 \<and> current s2 = ''abcde'' \<and> cout s2 = [])"
proof -
  let ?s = "\<lparr>current = ''abcde'', created = True, capacity = 100,
            undoStack = \<lparr>nodes = [\<lparr>prev_str = ''abc'', next_str = ''abcde'', weight = 2\<rparr>],
                         totalWeight = 2, maxWeight = 100\<rparr>,
            redoStack = [], cout = []\<rparr>"
  have 1: "run main_init [''CREATE 100 abc'', ''APPEND de''] = Inr ?s" by code_simp
  have 2: "nodes (undoStack ?s) \<noteq> []" by simp
  have 3: "command_is ''UNDO'' ''UNDO''" by code_simp
  have 4: "command_is ''REDO'' ''REDO''" by code_simp
  from undo_then_redo_restores [OF 1 2 3 4]
  have "\<exists>s1 s2. step ?s ''UNDO'' = Inr s1 \<and> step s1 ''REDO'' = Inr s2
      \<and> current s2 = current ?s \<and> cout s2 = cout ?s" .
  then have "\<exists>s1 s2. step ?s ''UNDO'' = Inr s1 \<and> step s1 ''REDO'' = Inr s2
      \<and> current s2 = ''abcde'' \<and> cout s2 = []"
    by simp
  with 1 show ?thesis by (intro conjI)
qed

text \<open>
  Claim C6 as stated has capacity 0 force the eviction of the re-pushed Action every
  time. At capacity 0, after \<^verbatim>\<open>DELETE 3\<close> on \<^verbatim>\<open>abc\<close> (weight 0) the Undo succeeds
  (nothing is written to the output), and after the Redo the Action is on the undo stack
  again: nothing was evicted.
\<close>
theorem redo_at_capacity_zero_counterexample:
  "run main_init [''CREATE 0 abc'', ''DELETE 3'', ''UNDO''] =
     Inr \<lparr>current = ''abc'', created = True, capacity = 0,
          undoStack = \<lparr>nodes = [], totalWeight = 0, maxWeight = 0\<rparr>,
          redoStack = [\<lparr>prev_str = ''abc'', next_str = ''abc'', weight = 0\<rparr>], cout = []\<rparr>
   \<and> run main_init [''CREATE 0 abc'', ''DELETE 3'', ''UNDO'', ''REDO''] =
     Inr \<lparr>current = ''abc'', created = True, capacity = 0,
          undoStack = \<lparr>nodes = [\<lparr>prev_str = ''abc'', next_str = ''abc'', weight = 0\<rparr>],
                       totalWeight = 0, maxWeight = 0\<rparr>,
          redoStack = [], cout = []\<rparr>"
  by code_simp

text \<open>
  \<^bold>\<open>Claim C7.\<close> In every state the program can reach, if the undo stack is not empty
  then the buffer is the \<open>next_str\<close> of its newest Action; and an Undo line then moves
  that Action to the redo stack and makes its \<open>prev_str\<close> the buffer.
\<close>
theorem buffer_matches_history:
  assumes reach: "run main_init ls = Inr s" and ne: "nodes (undoStack s) \<noteq> []"
    and u: "command_is ''UNDO'' u"
  shows "current s = next_str (hd (nodes (undoStack s)))
    \<and> (\<exists>s'. step s u = Inr s' \<and> redoStack s' = hd (nodes (undoStack s)) # redoStack s
          \<and> nodes (undoStack s') = tl (nodes (undoStack s))
          \<and> current s' = prev_str (hd (nodes (undoStack s))))"
proof -
  from reach have inv: "chain_inv s" by (rule reachable_chain)
  from inv ne have c: "created s" by (rule chain_inv_created)
  from ne obtain a rest where n: "nodes (undoStack s) = a # rest" by (cases "nodes (undoStack s)") auto
  from inv n have cur: "current s = next_str a" by (simp add: chain_inv_def)
  have "\<exists>s'. step s u = Inr s' \<and> redoStack s' = a # redoStack s
          \<and> nodes (undoStack s') = rest \<and> current s' = prev_str a"
    using c u n
    by (simp add: step_UNDO do_UNDO_def undo_empty_def undo_pop_def redo_push_def Let_def)
  with cur n show ?thesis by simp
qed

text \<open>An instance: the state after a CREATE, a REPLACE and a DELETE.\<close>
theorem buffer_matches_history_witness:
  "run main_init [''CREATE 10 aaa'', ''REPLACE a b'', ''DELETE 1'']
     = Inr \<lparr>current = ''b'', created = True, capacity = 10,
            undoStack = \<lparr>nodes = [\<lparr>prev_str = ''bbb'', next_str = ''b'', weight = 2\<rparr>,
                                  \<lparr>prev_str = ''aaa'', next_str = ''bbb'', weight = 3\<rparr>],
                         totalWeight = 5, maxWeight = 10\<rparr>,
            redoStack = [], cout = []\<rparr>
   \<and> (\<exists>s'. step \<lparr>current = ''b'', created = True, capacity = 10,
            undoStack = \<lparr>nodes = [\<lparr>prev_str = ''bbb'', next_str = ''b'', weight = 2\<rparr>,
                                  \<lparr>prev_str = ''aaa'', next_str = ''bbb'', weight = 3\<rparr>],
                         totalWeight = 5, maxWeight = 10\<rparr>,
            redoStack = [], cout = []\<rparr> ''UNDO'' = Inr s'
         \<and> redoStack s' = [\<lparr>prev_str = ''bbb'', next_str = ''b'', weight = 2\<rparr>]
         \<and> nodes (undoStack s') = [\<lparr>prev_str = ''aaa'', next_str = ''bbb'', weight = 3\<rparr>]
         \<and> current s' = ''bbb'')"
proof -
  let ?s = "\<lparr>current = ''b'', created = True, capacity = 10,
            undoStack = \<lparr>nodes = [\<lparr>prev_str = ''bbb'', next_str = ''b'', weight = 2\<rparr>,
                                  \<lparr>prev_str = ''aaa'', next_str = ''bbb'', weight = 3\<rparr>],
                         totalWeight = 5, maxWeight = 10\<rparr>,
            redoStack = [], cout = []\<rparr>"
  have 1: "run main_init [''CREATE 10 aaa'', ''REPLACE a b'', ''DELETE 1''] = Inr ?s"
    by code_simp
  have 2: "nodes (undoStack ?s) \<noteq> []" by simp
  have 3: "command_is ''UNDO'' ''UNDO''" by code_simp
  from buffer_matches_history [OF 1 2 3] 1 show ?thesis by simp
qed



subsection \<open>The cached total when the sum of \<^verbatim>\<open>push\<close> overflows\<close>

lemma wrap32_overflow:
  assumes "INT_MAX < x" and "x < 4294967296"
  shows "wrap32 x = x - 4294967296"
proof -
  from assms have "0 \<le> x - 2147483648" and "x - 2147483648 < 4294967296"
    by (simp_all add: INT_MAX_def)
  then have "(x - 2147483648) mod 4294967296 = x - 2147483648"
    by (rule mod_pos_pos_trivial)
  moreover have "(x + 2147483648) mod 4294967296 = (x - 2147483648) mod 4294967296"
    using mod_add_self2 [of "x - 2147483648" 4294967296] by (simp add: add.commute)
  ultimately show ?thesis by (simp add: wrap32_def)
qed

text \<open>
  When the exact sum exceeds \<open>INT_MAX\<close>, the 32-bit sum is negative: the loop of
  \<^verbatim>\<open>trim\<close> does not run, the clamp sets the cached total to 0 and every node stays.
\<close>

lemma undo_push_overflow:
  assumes "0 \<le> maxWeight u" and "INT_MAX < totalWeight u + weight a"
    and "totalWeight u + weight a < 4294967296"
  shows "undo_push a u = u\<lparr>nodes := a # nodes u, totalWeight := 0\<rparr>"
proof -
  let ?v = "u\<lparr>nodes := a # nodes u, totalWeight := wrap32 (totalWeight u + weight a)\<rparr>"
  from wrap32_overflow [OF assms(2,3)] assms(3)
  have neg: "wrap32 (totalWeight u + weight a) < 0" by simp
  with assms(1) have "\<not> over_budget ?v" by (simp add: over_budget_def)
  then have "trim_loop ?v = ?v" by (rule trim_loop_noop)
  with neg show ?thesis by (simp add: undo_push_def trim_def)
qed

text \<open>
  Two instances: at the cap \<open>INT_MAX\<close>, a second Action of weight \<open>INT_MAX\<close>; at the cap
  \<open>INT_MAX - 1\<close>, an Action of weight \<open>INT_MAX\<close> on top of one of weight 1. Both nodes
  stay and the cached total is 0.
\<close>

lemma undo_push_overflow_examples:
  "undo_push \<lparr>prev_str = ''q'', next_str = ''r'', weight = 2147483647\<rparr>
     \<lparr>nodes = [\<lparr>prev_str = ''p'', next_str = ''q'', weight = 2147483647\<rparr>],
      totalWeight = 2147483647, maxWeight = 2147483647\<rparr>
   = \<lparr>nodes = [\<lparr>prev_str = ''q'', next_str = ''r'', weight = 2147483647\<rparr>,
               \<lparr>prev_str = ''p'', next_str = ''q'', weight = 2147483647\<rparr>],
      totalWeight = 0, maxWeight = 2147483647\<rparr>"
  "undo_push \<lparr>prev_str = ''q'', next_str = ''r'', weight = 2147483647\<rparr>
     \<lparr>nodes = [\<lparr>prev_str = ''p'', next_str = ''q'', weight = 1\<rparr>],
      totalWeight = 1, maxWeight = 2147483646\<rparr>
   = \<lparr>nodes = [\<lparr>prev_str = ''q'', next_str = ''r'', weight = 2147483647\<rparr>,
               \<lparr>prev_str = ''p'', next_str = ''q'', weight = 1\<rparr>],
      totalWeight = 0, maxWeight = 2147483646\<rparr>"
  by code_simp+

lemma get_args_loop_plain:
  assumes "\<forall>c\<in>set cs. c \<noteq> CHR '' '' \<and> c \<noteq> CHR 0x22"
  shows "get_args_loop cs args q cur = (if cur @ cs \<noteq> [] then args @ [cur @ cs] else args)"
  using assms by (induction cs arbitrary: cur) simp_all

lemma replace_loop_replicate:
  "replace_loop c d (replicate n c) = (replicate n d, int n)"
  by (induction n) simp_all

lemma run_append:
  "run s (xs @ ys) = (case run s xs of Inl f \<Rightarrow> Inl f | Inr s' \<Rightarrow> run s' ys)"
  by (induction xs arbitrary: s) (simp_all split: sum.splits)

text \<open>
  A REPLACE of the one character of a uniform buffer of \<open>n\<close> characters, at the cap
  \<open>INT_MAX\<close>: the Action has weight \<open>n\<close>; it is added to the cached total when the sum
  fits, and the cached total becomes 0 when it does not.
\<close>

lemma replace_uniform:
  assumes c: "created s" and cur: "current s = replicate n x"
    and l: "get_args l = [''REPLACE'', [x], [y]]"
    and m: "maxWeight (undoStack s) = INT_MAX"
    and t: "0 \<le> totalWeight (undoStack s)" "totalWeight (undoStack s) \<le> INT_MAX"
    and n: "int n \<le> INT_MAX"
  shows "\<exists>s'. step s l = Inr s' \<and> created s' \<and> current s' = replicate n y
    \<and> maxWeight (undoStack s') = INT_MAX
    \<and> totalWeight (undoStack s')
        = (if totalWeight (undoStack s) + int n \<le> INT_MAX
           then totalWeight (undoStack s) + int n else 0)
    \<and> nodes (undoStack s')
        = \<lparr>prev_str = replicate n x, next_str = replicate n y, weight = int n\<rparr>
          # nodes (undoStack s)"
proof -
  let ?a = "\<lparr>prev_str = replicate n x, next_str = replicate n y, weight = int n\<rparr>"
  from l have "command_is ''REPLACE'' l" and "3 \<le> length (get_args l)"
    by (simp_all add: command_is_def)
  with c l have "step s l = Inr (do_REPLACE [x] [y] s)"
    by (simp add: step_REPLACE)
  also have "do_REPLACE [x] [y] s = record_edit ?a s"
    by (simp add: do_REPLACE_def first_char_def cur replace_loop_replicate record_edit_def
        redo_clear_def)
  finally have st: "step s l = Inr (record_edit ?a s)" .
  have p: "undo_push ?a (undoStack s)
      = (undoStack s)\<lparr>nodes := ?a # nodes (undoStack s),
          totalWeight := (if totalWeight (undoStack s) + int n \<le> INT_MAX
                          then totalWeight (undoStack s) + int n else 0)\<rparr>"
  proof (cases "totalWeight (undoStack s) + int n \<le> INT_MAX")
    case True
    with t m show ?thesis by (simp add: undo_push_fits)
  next
    case False
    from t n have "totalWeight (undoStack s) + int n < 4294967296"
      by (simp add: INT_MAX_def)
    with False m show ?thesis
      by (simp add: undo_push_overflow INT_MAX_def)
  qed
  from st p c show ?thesis
    by (simp add: record_edit_def m)
qed


lemma replace_args:
  "get_args ''REPLACE a b'' = [''REPLACE'', [CHR ''a''], [CHR ''b'']]"
  "get_args ''REPLACE b a'' = [''REPLACE'', [CHR ''b''], [CHR ''a'']]"
  by code_simp+

lemma run_replace_pairs:
  assumes "created s" and "current s = replicate n CHR ''a''"
    and "maxWeight (undoStack s) = INT_MAX" and "0 \<le> totalWeight (undoStack s)"
    and "totalWeight (undoStack s) + 2 * (int m * int n) \<le> INT_MAX"
    and "int n \<le> INT_MAX"
  shows "\<exists>s'. run s (concat (replicate m [''REPLACE a b'', ''REPLACE b a''])) = Inr s'
    \<and> created s' \<and> current s' = replicate n CHR ''a''
    \<and> maxWeight (undoStack s') = INT_MAX
    \<and> totalWeight (undoStack s') = totalWeight (undoStack s) + 2 * (int m * int n)
    \<and> length (nodes (undoStack s')) = length (nodes (undoStack s)) + 2 * m
    \<and> wsum (nodes (undoStack s')) = wsum (nodes (undoStack s)) + 2 * (int m * int n)"
  using assms
proof (induction m arbitrary: s)
  case 0
  then show ?case by simp
next
  case (Suc m)
  let ?t = "totalWeight (undoStack s)"
  have mn: "0 \<le> int m * int n" by simp
  from Suc.prems(5) have le: "?t + 2 * int n + 2 * (int m * int n) \<le> INT_MAX"
    by (simp add: algebra_simps)
  with mn have le1: "?t + int n \<le> INT_MAX" and le2: "?t + int n + int n \<le> INT_MAX"
    by linarith+
  from Suc.prems(4) le1 have t0: "?t \<le> INT_MAX" by simp
  from replace_uniform [OF Suc.prems(1,2) replace_args(1) Suc.prems(3,4) t0 Suc.prems(6)] le1
  obtain s1 where 1: "step s ''REPLACE a b'' = Inr s1" and c1: "created s1"
    and b1: "current s1 = replicate n CHR ''b''" and m1: "maxWeight (undoStack s1) = INT_MAX"
    and t1: "totalWeight (undoStack s1) = ?t + int n"
    and n1: "nodes (undoStack s1)
        = \<lparr>prev_str = replicate n CHR ''a'', next_str = replicate n CHR ''b'', weight = int n\<rparr>
          # nodes (undoStack s)"
    by auto
  from Suc.prems(4) t1 le1 have p1: "0 \<le> totalWeight (undoStack s1)"
    and q1: "totalWeight (undoStack s1) \<le> INT_MAX" by simp_all
  from replace_uniform [OF c1 b1 replace_args(2) m1 p1 q1 Suc.prems(6)] t1 le2
  obtain s2 where 2: "step s1 ''REPLACE b a'' = Inr s2" and c2: "created s2"
    and b2: "current s2 = replicate n CHR ''a''" and m2: "maxWeight (undoStack s2) = INT_MAX"
    and t2: "totalWeight (undoStack s2) = ?t + int n + int n"
    and n2: "nodes (undoStack s2)
        = \<lparr>prev_str = replicate n CHR ''b'', next_str = replicate n CHR ''a'', weight = int n\<rparr>
          # nodes (undoStack s1)"
    by auto
  from Suc.prems(4) t2 have p2: "0 \<le> totalWeight (undoStack s2)" by simp
  from t2 le have l2: "totalWeight (undoStack s2) + 2 * (int m * int n) \<le> INT_MAX" by simp
  from Suc.IH [OF c2 b2 m2 p2 l2 Suc.prems(6)] obtain s'
    where r: "run s2 (concat (replicate m [''REPLACE a b'', ''REPLACE b a''])) = Inr s'"
      and "created s'" and "current s' = replicate n CHR ''a''"
      and "maxWeight (undoStack s') = INT_MAX"
      and "totalWeight (undoStack s') = totalWeight (undoStack s2) + 2 * (int m * int n)"
      and "length (nodes (undoStack s')) = length (nodes (undoStack s2)) + 2 * m"
      and "wsum (nodes (undoStack s')) = wsum (nodes (undoStack s2)) + 2 * (int m * int n)"
    by blast
  moreover from 1 2 r
  have "run s (concat (replicate (Suc m) [''REPLACE a b'', ''REPLACE b a''])) = Inr s'"
    by simp
  ultimately show ?case
    using t2 n1 n2 by (intro exI [of _ s']) (simp add: algebra_simps)
qed

lemma create_uniform:
  assumes "0 < n"
  shows "\<exists>s. step main_init (''CREATE 2147483647 '' @ replicate n CHR ''a'') = Inr s
    \<and> created s \<and> current s = replicate n CHR ''a''
    \<and> maxWeight (undoStack s) = INT_MAX \<and> totalWeight (undoStack s) = 0
    \<and> nodes (undoStack s) = []"
proof -
  let ?l = "''CREATE 2147483647 '' @ replicate n CHR ''a''"
  from assms have a: "get_args ?l = [''CREATE'', ''2147483647'', replicate n CHR ''a'']"
    by (simp add: get_args_def get_args_loop_plain)
  have s: "stoi ''2147483647'' = Inr 2147483647" by code_simp
  have i1: "get_args ?l ! 1 = ''2147483647''" and i2: "get_args ?l ! 2 = replicate n CHR ''a''"
    unfolding a by simp_all
  have cmd: "command_is ''CREATE'' ?l" and len: "3 \<le> length (get_args ?l)"
    unfolding command_is_def a by simp_all
  note step_CREATE [OF cmd len, of main_init, unfolded i1 i2 s]
  then have st: "step main_init ?l = Inr (do_CREATE 2147483647 (replicate n CHR ''a'') main_init)"
    by (simp only: sum.case)
  let ?s = "do_CREATE 2147483647 (replicate n CHR ''a'') main_init"
  have "undo_inv (undoStack ?s)" by (rule do_CREATE_undo_inv)
  then have "totalWeight (undoStack ?s) = 0"
    by (simp add: undo_inv_def do_CREATE_fields)
  with st show ?thesis
    by (simp add: do_CREATE_fields INT_MAX_def)
qed

text \<open>
  \<^bold>\<open>Claim C5.\<close> The claim has the cached total equal the sum of the members' weights
  at every point. The program breaks it where the sum of \<^verbatim>\<open>push\<close> overflows: on a
  buffer of \<open>2^20\<close> characters \<^verbatim>\<open>a\<close>, created with capacity 2147483647, 2048 REPLACE
  lines that turn every \<^verbatim>\<open>a\<close> into \<^verbatim>\<open>b\<close> and back record 2048 Actions of weight
  \<open>2^20\<close>. The 2048th sum is \<open>2^31\<close>; as a 32-bit \<^verbatim>\<open>int\<close> it is negative, so nothing is
  trimmed and the clamp sets the cached total to 0. The undo stack then holds 2048
  Actions whose weights add up to 2147483648, more than the cap, with a cached total of 0.
\<close>
theorem cached_total_lost_on_overflow:
  "\<exists>s. run main_init
          ((''CREATE 2147483647 '' @ replicate 1048576 CHR ''a'')
           # concat (replicate 1024 [''REPLACE a b'', ''REPLACE b a''])) = Inr s
     \<and> maxWeight (undoStack s) = 2147483647
     \<and> length (nodes (undoStack s)) = 2048
     \<and> wsum (nodes (undoStack s)) = 2147483648
     \<and> totalWeight (undoStack s) = 0"
proof -
  let ?n = "1048576 :: nat"
  let ?A = "replicate ?n CHR ''a''"
  let ?B = "replicate ?n CHR ''b''"
  let ?pair = "[''REPLACE a b'', ''REPLACE b a'']"
  have n: "int ?n \<le> INT_MAX" by (simp add: INT_MAX_def)
  from create_uniform [of ?n] obtain s0
    where 0: "step main_init (''CREATE 2147483647 '' @ ?A) = Inr s0" and c0: "created s0"
      and b0: "current s0 = ?A" and m0: "maxWeight (undoStack s0) = INT_MAX"
      and t0: "totalWeight (undoStack s0) = 0" and n0: "nodes (undoStack s0) = []"
    by auto
  from t0 have p0: "0 \<le> totalWeight (undoStack s0)"
    and l0: "totalWeight (undoStack s0) + 2 * (int 1023 * int ?n) \<le> INT_MAX"
    by (simp_all add: INT_MAX_def)
  from run_replace_pairs [OF c0 b0 m0 p0 l0 n] t0 n0 obtain s1
    where 1: "run s0 (concat (replicate 1023 ?pair)) = Inr s1" and c1: "created s1"
      and b1: "current s1 = ?A" and m1: "maxWeight (undoStack s1) = INT_MAX"
      and t1: "totalWeight (undoStack s1) = 2145386496"
      and k1: "length (nodes (undoStack s1)) = 2046"
      and w1: "wsum (nodes (undoStack s1)) = 2145386496"
    by auto
  from t1 have p1: "0 \<le> totalWeight (undoStack s1)" and q1: "totalWeight (undoStack s1) \<le> INT_MAX"
    by (simp_all add: INT_MAX_def)
  from replace_uniform [OF c1 b1 replace_args(1) m1 p1 q1 n] t1
  obtain s2 where 2: "step s1 ''REPLACE a b'' = Inr s2" and c2: "created s2"
    and b2: "current s2 = ?B" and m2: "maxWeight (undoStack s2) = INT_MAX"
    and t2: "totalWeight (undoStack s2) = 2146435072"
    and n2: "nodes (undoStack s2)
        = \<lparr>prev_str = ?A, next_str = ?B, weight = int ?n\<rparr> # nodes (undoStack s1)"
    by (auto simp: INT_MAX_def)
  from t2 have p2: "0 \<le> totalWeight (undoStack s2)" and q2: "totalWeight (undoStack s2) \<le> INT_MAX"
    by (simp_all add: INT_MAX_def)
  from replace_uniform [OF c2 b2 replace_args(2) m2 p2 q2 n] t2
  obtain s3 where 3: "step s2 ''REPLACE b a'' = Inr s3"
    and m3: "maxWeight (undoStack s3) = INT_MAX"
    and t3: "totalWeight (undoStack s3) = 0"
    and n3: "nodes (undoStack s3)
        = \<lparr>prev_str = ?B, next_str = ?A, weight = int ?n\<rparr> # nodes (undoStack s2)"
    by (auto simp: INT_MAX_def)
  have "(1024 :: nat) = Suc 1023" by simp
  then have "replicate 1024 ?pair = ?pair # replicate 1023 ?pair"
    by (simp only: replicate_Suc)
  then have "replicate 1024 ?pair = replicate 1023 ?pair @ [?pair]"
    by (simp only: replicate_append_same)
  then have "concat (replicate 1024 ?pair) = concat (replicate 1023 ?pair) @ ?pair"
    by simp
  with 0 1 2 3 have "run main_init ((''CREATE 2147483647 '' @ ?A) # concat (replicate 1024 ?pair))
      = Inr s3"
    by (simp add: run_append)
  with m3 t3 n3 n2 k1 w1 show ?thesis
    by (intro exI [of _ s3]) (simp add: INT_MAX_def)
qed

subsection \<open>The redo stack\<close>

text \<open>
  \<^bold>\<open>Claim C8.\<close> Once a session exists, every Append/Replace/Delete line leaves the
  redo stack empty, so that a Redo line right after it writes the nothing-to-redo message
  and changes nothing else, whatever the redo stack held before. Every CREATE line that
  is executed leaves the redo stack empty. An Undo line leaves the redo stack as it was
  or adds one Action on top of it; a Redo line leaves it as it was or removes its newest
  Action only: neither of them clears it.
\<close>
theorem redo_cleared_by_edits_only:
  "(created s \<and> edit_line e \<and> command_is ''REDO'' r \<longrightarrow>
      (\<exists>s'. step s e = Inr s' \<and> redoStack s' = []
           \<and> step s' r = Inr (s'\<lparr>cout := cout s' @ nothing_to_redo\<rparr>)))
   \<and> (command_is ''CREATE'' c \<and> 3 \<le> length (get_args c) \<and> step s c = Inr s1 \<longrightarrow>
        redoStack s1 = [])
   \<and> (command_is ''UNDO'' l \<and> step s l = Inr s2 \<longrightarrow>
        redoStack s2 = redoStack s \<or> redoStack s2 = hd (nodes (undoStack s)) # redoStack s)
   \<and> (command_is ''REDO'' l' \<and> step s l' = Inr s3 \<longrightarrow>
        redoStack s3 = redoStack s \<or> redoStack s3 = tl (redoStack s))"
proof (intro conjI impI)
  assume h: "created s \<and> edit_line e \<and> command_is ''REDO'' r"
  then obtain a where st: "step s e = Inr (record_edit a s)"
    using step_edit [of s e] by blast
  from h have "step (record_edit a s) r
      = Inr ((record_edit a s)\<lparr>cout := cout (record_edit a s) @ nothing_to_redo\<rparr>)"
    by (simp add: step_REDO record_edit_created do_REDO_def redo_empty_def record_edit_def)
  with st show "\<exists>s'. step s e = Inr s' \<and> redoStack s' = []
           \<and> step s' r = Inr (s'\<lparr>cout := cout s' @ nothing_to_redo\<rparr>)"
    by (simp add: record_edit_def)
next
  assume "command_is ''CREATE'' c \<and> 3 \<le> length (get_args c) \<and> step s c = Inr s1"
  then show "redoStack s1 = []"
    by (auto simp: step_CREATE do_CREATE_fields split: sum.splits)
next
  assume h: "command_is ''UNDO'' l \<and> step s l = Inr s2"
  show "redoStack s2 = redoStack s \<or> redoStack s2 = hd (nodes (undoStack s)) # redoStack s"
  proof (cases "created s")
    case True
    with h step_UNDO [of s l] have "do_UNDO s = Inr s2" by simp
    then show ?thesis
      by (auto simp: do_UNDO_def undo_empty_def undo_pop_def redo_push_def Let_def
          split: if_splits list.splits)
  next
    case False
    with h step_not_created [of s l] have "s2 = s" by (auto simp: command_is_def)
    then show ?thesis by simp
  qed
next
  assume h: "command_is ''REDO'' l' \<and> step s l' = Inr s3"
  show "redoStack s3 = redoStack s \<or> redoStack s3 = tl (redoStack s)"
  proof (cases "created s")
    case True
    with h step_REDO [of s l'] have "do_REDO s = Inr s3" by simp
    then show ?thesis
      by (auto simp: do_REDO_def redo_empty_def redo_pop_def split: if_splits list.splits)
  next
    case False
    with h step_not_created [of s l'] have "s3 = s" by (auto simp: command_is_def)
    then show ?thesis by simp
  qed
qed


text \<open>
  An instance: a session whose redo stack holds one Action, so that a Redo would succeed;
  after \<^verbatim>\<open>APPEND x\<close> it fails.
\<close>
theorem redo_cleared_by_edits_only_witness:
  "(\<exists>s'. step \<lparr>current = ''abc'', created = True, capacity = 10,
              undoStack = \<lparr>nodes = [], totalWeight = 0, maxWeight = 10\<rparr>,
              redoStack = [\<lparr>prev_str = ''abc'', next_str = ''abcd'', weight = 1\<rparr>],
              cout = []\<rparr> ''APPEND x'' = Inr s' \<and> redoStack s' = []
         \<and> step s' ''REDO'' = Inr (s'\<lparr>cout := cout s' @ nothing_to_redo\<rparr>))
   \<and> redoStack \<lparr>current = ''q'', created = True, capacity = 5,
              undoStack = \<lparr>nodes = [], totalWeight = 0, maxWeight = 5\<rparr>,
              redoStack = [], cout = []\<rparr> = []
   \<and> (redoStack \<lparr>current = ''abc'', created = True, capacity = 10,
              undoStack = \<lparr>nodes = [], totalWeight = 0, maxWeight = 10\<rparr>,
              redoStack = [\<lparr>prev_str = ''abc'', next_str = ''abcd'', weight = 1\<rparr>],
              cout = nothing_to_undo\<rparr>
        = [\<lparr>prev_str = ''abc'', next_str = ''abcd'', weight = 1\<rparr>]
      \<or> redoStack \<lparr>current = ''abc'', created = True, capacity = 10,
              undoStack = \<lparr>nodes = [], totalWeight = 0, maxWeight = 10\<rparr>,
              redoStack = [\<lparr>prev_str = ''abc'', next_str = ''abcd'', weight = 1\<rparr>],
              cout = nothing_to_undo\<rparr>
        = hd [] # [\<lparr>prev_str = ''abc'', next_str = ''abcd'', weight = 1\<rparr>])
   \<and> (redoStack \<lparr>current = ''abcd'', created = True, capacity = 10,
              undoStack = \<lparr>nodes = [\<lparr>prev_str = ''abc'', next_str = ''abcd'', weight = 1\<rparr>],
                           totalWeight = 1, maxWeight = 10\<rparr>,
              redoStack = [], cout = []\<rparr>
        = [\<lparr>prev_str = ''abc'', next_str = ''abcd'', weight = 1\<rparr>]
      \<or> redoStack \<lparr>current = ''abcd'', created = True, capacity = 10,
              undoStack = \<lparr>nodes = [\<lparr>prev_str = ''abc'', next_str = ''abcd'', weight = 1\<rparr>],
                           totalWeight = 1, maxWeight = 10\<rparr>,
              redoStack = [], cout = []\<rparr>
        = tl [\<lparr>prev_str = ''abc'', next_str = ''abcd'', weight = 1\<rparr>])"
proof -
  let ?a = "\<lparr>prev_str = ''abc'', next_str = ''abcd'', weight = 1\<rparr>"
  let ?s = "\<lparr>current = ''abc'', created = True, capacity = 10,
              undoStack = \<lparr>nodes = [], totalWeight = 0, maxWeight = 10\<rparr>,
              redoStack = [?a], cout = []\<rparr>"
  let ?s1 = "\<lparr>current = ''q'', created = True, capacity = 5,
              undoStack = \<lparr>nodes = [], totalWeight = 0, maxWeight = 5\<rparr>,
              redoStack = [], cout = []\<rparr>"
  let ?s2 = "\<lparr>current = ''abc'', created = True, capacity = 10,
              undoStack = \<lparr>nodes = [], totalWeight = 0, maxWeight = 10\<rparr>,
              redoStack = [?a], cout = nothing_to_undo\<rparr>"
  let ?s3 = "\<lparr>current = ''abcd'', created = True, capacity = 10,
              undoStack = \<lparr>nodes = [?a], totalWeight = 1, maxWeight = 10\<rparr>,
              redoStack = [], cout = []\<rparr>"
  have 1: "created ?s \<and> edit_line ''APPEND x'' \<and> command_is ''REDO'' ''REDO''"
    by code_simp
  have 2: "command_is ''CREATE'' ''CREATE 5 q'' \<and> 3 \<le> length (get_args ''CREATE 5 q'')
      \<and> step ?s ''CREATE 5 q'' = Inr ?s1"
    by code_simp
  have 3: "command_is ''UNDO'' ''UNDO'' \<and> step ?s ''UNDO'' = Inr ?s2"
    by code_simp
  have 4: "command_is ''REDO'' ''REDO'' \<and> step ?s ''REDO'' = Inr ?s3"
    by code_simp
  have 5: "redoStack ?s = [?a]" and 6: "nodes (undoStack ?s) = []" by simp_all
  note t = redo_cleared_by_edits_only [of ?s "''APPEND x''" "''REDO''" "''CREATE 5 q''" ?s1
      "''UNDO''" ?s2 "''REDO''" ?s3]
  from t 1 have a: "\<exists>s'. step ?s ''APPEND x'' = Inr s' \<and> redoStack s' = []
         \<and> step s' ''REDO'' = Inr (s'\<lparr>cout := cout s' @ nothing_to_redo\<rparr>)" by blast
  from t 2 have b: "redoStack ?s1 = []" by blast
  from t 3 have c: "redoStack ?s2 = redoStack ?s \<or> redoStack ?s2 = hd (nodes (undoStack ?s)) # redoStack ?s"
    by blast
  from t 4 have d: "redoStack ?s3 = redoStack ?s \<or> redoStack ?s3 = tl (redoStack ?s)"
    by blast
  from c have c': "redoStack ?s2 = [?a] \<or> redoStack ?s2 = hd [] # [?a]"
    unfolding 5 6 .
  from d have d': "redoStack ?s3 = [?a] \<or> redoStack ?s3 = tl [?a]"
    unfolding 5 .
  from a b c' d' show ?thesis by (intro conjI)
qed

subsection \<open>Faults\<close>

lemma stoi_not_null: "stoi str \<noteq> Inl NullDereference"
  by (simp add: stoi_def Let_def)

lemma do_UNDO_not_null: "do_UNDO s \<noteq> Inl NullDereference"
  by (cases "nodes (undoStack s)") (simp_all add: do_UNDO_def undo_empty_def undo_pop_def Let_def)

lemma do_REDO_not_null: "do_REDO s \<noteq> Inl NullDereference"
  by (cases "redoStack s") (simp_all add: do_REDO_def redo_empty_def redo_pop_def)

lemma step_not_null: "step s line \<noteq> Inl NullDereference"
  using stoi_not_null do_UNDO_not_null do_REDO_not_null
  by (auto simp: step_def Let_def split: sum.splits)

lemma run_not_null: "run s ls \<noteq> Inl NullDereference"
proof (induction ls arbitrary: s)
  case Nil
  show ?case by simp
next
  case (Cons l ls)
  show ?case
  proof (cases "step s l")
    case (Inl f)
    with step_not_null [of s l] show ?thesis by simp
  next
    case (Inr s')
    with Cons.IH [of s'] show ?thesis by simp
  qed
qed

text \<open>
  \<^bold>\<open>Claim C10.\<close> The two \<^verbatim>\<open>pop\<close> functions dereference a null pointer exactly on
  an empty stack, and the command loop never does: the UNDO and REDO branches call
  \<^verbatim>\<open>pop\<close> only where \<^verbatim>\<open>empty()\<close> of the same stack is false, so no branch, no
  line and no run of the loop ends in a null pointer dereference, from any state.
\<close>
theorem pop_only_after_empty_check:
  "(undo_pop u = Inl NullDereference) = undo_empty u
   \<and> (redo_pop r = Inl NullDereference) = redo_empty r
   \<and> do_UNDO s \<noteq> Inl NullDereference \<and> do_REDO s \<noteq> Inl NullDereference
   \<and> step s line \<noteq> Inl NullDereference \<and> run s ls \<noteq> Inl NullDereference"
proof (intro conjI)
  show "(undo_pop u = Inl NullDereference) = undo_empty u"
    by (cases "nodes u") (simp_all add: undo_pop_def undo_empty_def Let_def)
  show "(redo_pop r = Inl NullDereference) = redo_empty r"
    by (cases r) (simp_all add: redo_pop_def redo_empty_def)
qed (rule do_UNDO_not_null do_REDO_not_null step_not_null run_not_null)+

text \<open>An instance: a run with Undo and Redo lines on empty and on non-empty stacks.\<close>
theorem pop_only_after_empty_check_witness:
  "run main_init [''UNDO'', ''CREATE 3 abc'', ''UNDO'', ''REDO'', ''APPEND x'', ''UNDO'', ''UNDO'',
      ''REDO'', ''REDO''] \<noteq> Inl NullDereference
   \<and> (undo_pop undo_init = Inl NullDereference) = undo_empty undo_init"
  using pop_only_after_empty_check [of undo_init "[]" main_init "[]"
      "[''UNDO'', ''CREATE 3 abc'', ''UNDO'', ''REDO'', ''APPEND x'', ''UNDO'', ''UNDO'',
      ''REDO'', ''REDO'']"]
  by blast

subsection \<open>The contract of pop\<close>

text \<open>
  \<^bold>\<open>Claim C3, amended.\<close> \<^verbatim>\<open>pop\<close> has no check of its own and is to be called on a
  non-empty list only (the command loop checks \<^verbatim>\<open>empty()\<close> first and writes the error
  message itself). On a non-empty undo stack it removes and returns the newest Action,
  and the total is decreased by that Action's weight and clamped at 0; on a non-empty redo
  stack it removes and returns the newest Action, which is the one pushed last.
\<close>
theorem pop_on_nonempty_list:
  "(nodes u \<noteq> [] \<longrightarrow>
      undo_pop u = Inr (hd (nodes u),
        u\<lparr>nodes := tl (nodes u),
          totalWeight := max 0 (totalWeight u - weight (hd (nodes u)))\<rparr>))
   \<and> (r \<noteq> [] \<longrightarrow> redo_pop r = Inr (hd r, tl r))
   \<and> redo_pop (redo_push a r) = Inr (a, r)"
  by (cases "nodes u"; cases r) (simp_all add: undo_pop_def redo_pop_def redo_push_def Let_def max_def)

text \<open>An instance on a stack of two Actions.\<close>
theorem pop_on_nonempty_list_witness:
  "undo_pop \<lparr>nodes = [\<lparr>prev_str = ''bbb'', next_str = ''b'', weight = 2\<rparr>,
                       \<lparr>prev_str = ''aaa'', next_str = ''bbb'', weight = 3\<rparr>],
             totalWeight = 5, maxWeight = 10\<rparr>
     = Inr (\<lparr>prev_str = ''bbb'', next_str = ''b'', weight = 2\<rparr>,
            \<lparr>nodes = [\<lparr>prev_str = ''aaa'', next_str = ''bbb'', weight = 3\<rparr>],
             totalWeight = 3, maxWeight = 10\<rparr>)
   \<and> redo_pop [\<lparr>prev_str = ''bbb'', next_str = ''b'', weight = 2\<rparr>]
     = Inr (\<lparr>prev_str = ''bbb'', next_str = ''b'', weight = 2\<rparr>, [])"
  using pop_on_nonempty_list [of "\<lparr>nodes = [\<lparr>prev_str = ''bbb'', next_str = ''b'', weight = 2\<rparr>,
                       \<lparr>prev_str = ''aaa'', next_str = ''bbb'', weight = 3\<rparr>],
             totalWeight = 5, maxWeight = 10\<rparr>" "[\<lparr>prev_str = ''bbb'', next_str = ''b'', weight = 2\<rparr>]"]
  by simp

text \<open>
  Claim C3 as stated has \<^verbatim>\<open>pop\<close> fail with a defined error on an empty list. On the
  empty undo stack and on the empty redo stack, \<^verbatim>\<open>pop\<close> reads \<^verbatim>\<open>n->act\<close> through
  the null pointer: that is undefined behaviour, not an error result.
\<close>
theorem pop_on_empty_list_counterexample:
  "undo_pop undo_init = Inl NullDereference \<and> redo_pop [] = Inl NullDereference"
  by (simp add: undo_pop_def undo_init_def redo_pop_def)


subsection \<open>The trim step\<close>




subsection \<open>Malformed lines\<close>

text \<open>A CREATE, APPEND, REPLACE or DELETE line with too few arguments changes nothing.\<close>

lemma too_few_arguments_skipped:
  assumes "(command_is ''CREATE'' line \<and> length (get_args line) < 3)
    \<or> (command_is ''APPEND'' line \<and> length (get_args line) < 2)
    \<or> (command_is ''REPLACE'' line \<and> length (get_args line) < 3)
    \<or> (command_is ''DELETE'' line \<and> length (get_args line) < 2)"
  shows "step s line = Inr s"
  using assms by (auto simp: step_def command_is_def Let_def)

text \<open>
  \<^bold>\<open>Claim C2.\<close> The claim has the loop skip a line with a non-numeric token where an
  integer is required. The loop skips the lines with too few arguments (lemma above), but
  it passes the token of CREATE and of DELETE to \<^verbatim>\<open>std::stoi\<close> unchecked: on
  \<^verbatim>\<open>CREATE abc x\<close> and on \<^verbatim>\<open>DELETE x\<close> the call throws
  \<^verbatim>\<open>std::invalid_argument\<close>, on a number beyond the range of \<^verbatim>\<open>int\<close> it throws
  \<^verbatim>\<open>std::out_of_range\<close>; nothing catches it, and the program ends instead of reading
  the next line (here a PRINT).
\<close>
theorem non_numeric_argument_ends_program:
  "run main_init [''CREATE abc x'', ''PRINT''] = Inl InvalidArgument
   \<and> run main_init [''CREATE 5 abc'', ''DELETE x'', ''PRINT''] = Inl InvalidArgument
   \<and> run main_init [''CREATE 99999999999 abc'', ''PRINT''] = Inl OutOfRange"
  by code_simp

end
